theory Spec2Isabelle
  imports Complex_Main
begin

section \<open>Geohash: alphabet, tables and string helpers\<close>

text \<open>
  The Python exceptions the module can raise.  \<open>ValueError\<close> is raised by the explicit
  argument checks and by \<open>str.index\<close>, \<open>KeyError\<close> by a dictionary lookup of a
  missing key, \<open>IndexError\<close> by an out-of-range subscript, and \<open>Exception\<close> is the
  generic exception of \<open>geohash_bounds\<close>.
\<close>

datatype error = ValueError | KeyError | IndexError | Exception

definition base32 :: string where
  "base32 = ''0123456789bcdefghjkmnpqrstuvwxyz''"

text \<open>
  \<open>str.lower\<close> on the code points below 256: the ASCII capitals and the Latin-1
  capitals (all of 192..222 but the multiplication sign 215) move up by 32.
\<close>

definition lower_char :: "char \<Rightarrow> char" where
  "lower_char c =
     (let n = (of_char c :: nat)
      in if (65 \<le> n \<and> n \<le> 90) \<or> (192 \<le> n \<and> n \<le> 222 \<and> n \<noteq> 215)
         then char_of (n + 32) else c)"

definition lower :: "string \<Rightarrow> string" where
  "lower s = map lower_char s"

text \<open>\<open>s.index(c)\<close>: the first position of \<open>c\<close>, or \<open>ValueError\<close>.\<close>

primrec str_index :: "string \<Rightarrow> char \<Rightarrow> error + nat" where
  "str_index [] c = Inl ValueError"
| "str_index (x # xs) c =
     (if x = c then Inr 0
      else case str_index xs c of Inl e \<Rightarrow> Inl e | Inr i \<Rightarrow> Inr (Suc i))"

text \<open>\<open>sub in s\<close> on strings: \<open>sub\<close> occurs in \<open>s\<close> as a contiguous substring.\<close>

primrec str_in :: "string \<Rightarrow> string \<Rightarrow> bool" where
  "str_in sub [] = (sub = [])"
| "str_in sub (x # xs) = (take (length sub) (x # xs) = sub \<or> str_in sub xs)"

definition neighbour :: "(string \<times> string list) list" where
  "neighbour =
     [(''n'', [''p0r21436x8zb9dcf5h7kjnmqesgutwvy'', ''bc01fg45238967deuvhjyznpkmstqrwx'']),
      (''s'', [''14365h7k9dcfesgujnmqp0r2twvyx8zb'', ''238967debc01fg45kmstqrwxuvhjyznp'']),
      (''e'', [''bc01fg45238967deuvhjyznpkmstqrwx'', ''p0r21436x8zb9dcf5h7kjnmqesgutwvy'']),
      (''w'', [''238967debc01fg45kmstqrwxuvhjyznp'', ''14365h7k9dcfesgujnmqp0r2twvyx8zb''])]"

definition border :: "(string \<times> string list) list" where
  "border =
     [(''n'', [''prxz'', ''bcfguvyz'']),
      (''s'', [''028b'', ''0145hjnp'']),
      (''e'', [''bcfguvyz'', ''prxz'']),
      (''w'', [''0145hjnp'', ''028b''])]"

text \<open>\<open>table[direction][ttype]\<close> on one of the two tables above.\<close>

definition table_get :: "(string \<times> string list) list \<Rightarrow> string \<Rightarrow> nat \<Rightarrow> error + string" where
  "table_get t direction ttype =
     (case map_of t direction of
        None \<Rightarrow> Inl KeyError
      | Some col \<Rightarrow> if ttype < length col then Inr (col ! ttype) else Inl IndexError)"

text \<open>The four direction codes accepted by \<open>geohash_adjacent\<close>.\<close>

definition dirs :: "string list" where
  "dirs = [''n'', ''s'', ''e'', ''w'']"

section \<open>Adjacency\<close>

text \<open>\<open>__border[direction][ttype].index(last_ch)\<close>\<close>

definition border_index :: "string \<Rightarrow> nat \<Rightarrow> char \<Rightarrow> error + nat" where
  "border_index direction ttype last_ch =
     (case table_get border direction ttype of
        Inl e \<Rightarrow> Inl e
      | Inr b \<Rightarrow> str_index b last_ch)"

text \<open>\<open>__base32[__neighbour[direction][ttype].index(last_ch)]\<close>\<close>

definition neighbour_char :: "string \<Rightarrow> nat \<Rightarrow> char \<Rightarrow> error + char" where
  "neighbour_char direction ttype last_ch =
     (case table_get neighbour direction ttype of
        Inl e \<Rightarrow> Inl e
      | Inr nb \<Rightarrow>
          (case str_index nb last_ch of
             Inl e \<Rightarrow> Inl e
           | Inr i \<Rightarrow> if i < length base32 then Inr (base32 ! i) else Inl IndexError))"

text \<open>
  \<open>geohash_adjacent\<close>.  The \<open>try\<close> block computes the new parent; its
  \<open>except ValueError: pass\<close> keeps the old parent both when \<open>index\<close> does not find
  the last character in the border string and when the recursive call raises
  \<open>ValueError\<close>.  The condition \<open>index(...) and parent != ''\<close> is false when the
  index is 0.
\<close>

function geohash_adjacent :: "string \<Rightarrow> string \<Rightarrow> error + string" where
  "geohash_adjacent geohash direction =
     (if length geohash = 0 then Inl ValueError
      else if length direction \<noteq> 1 then Inl ValueError
      else
        let direction' = lower direction in
        if \<not> str_in direction' ''nsew'' then Inl ValueError
        else
          let geohash' = lower geohash;
              last_ch = last geohash';
              parent = butlast geohash';
              ttype = length geohash' mod 2;
              tried =
                (case border_index direction' ttype last_ch of
                   Inl e \<Rightarrow> Inl e
                 | Inr i \<Rightarrow>
                     if i \<noteq> 0 \<and> parent \<noteq> []
                     then geohash_adjacent parent direction'
                     else Inr parent);
              parent' = (case tried of Inl ValueError \<Rightarrow> Inr parent | r \<Rightarrow> r)
          in case parent' of
               Inl e \<Rightarrow> Inl e
             | Inr p \<Rightarrow>
                 (case neighbour_char direction' ttype last_ch of
                    Inl e \<Rightarrow> Inl e
                  | Inr ch \<Rightarrow> Inr (p @ [ch])))"
  by pat_completeness auto
termination
  by (relation "measure (\<lambda>(geohash, direction). length geohash)") (auto simp: lower_def)

declare geohash_adjacent.simps [simp del]

section \<open>Neighbours\<close>

text \<open>Two adjacency steps in a row, as in \<open>geohash_adjacent(geohash_adjacent(h, a), b)\<close>.\<close>

definition adjacent2 :: "string \<Rightarrow> string \<Rightarrow> string \<Rightarrow> error + string" where
  "adjacent2 geohash a b =
     (case geohash_adjacent geohash a of
        Inl e \<Rightarrow> Inl e
      | Inr g \<Rightarrow> geohash_adjacent g b)"

text \<open>The dictionary \<open>options\<close> of \<open>geohash_neighbour\<close>, each closure by its result.\<close>

definition options :: "string \<Rightarrow> (string \<times> (error + string)) list" where
  "options geohash =
     [(''nw'', adjacent2 geohash ''n'' ''w''),
      (''n'', geohash_adjacent geohash ''n''),
      (''ne'', adjacent2 geohash ''n'' ''e''),
      (''w'', geohash_adjacent geohash ''w''),
      (''e'', geohash_adjacent geohash ''e''),
      (''sw'', adjacent2 geohash ''s'' ''w''),
      (''s'', geohash_adjacent geohash ''s''),
      (''se'', adjacent2 geohash ''s'' ''e'')]"

definition geohash_neighbour :: "string \<Rightarrow> string \<Rightarrow> error + string" where
  "geohash_neighbour geohash direction =
     (if length geohash = 0 then Inl ValueError
      else if length direction \<noteq> 1 \<and> length direction \<noteq> 2 then Inl ValueError
      else
        let direction' = lower direction in
        if direction' \<notin> set [''nw'', ''n'', ''ne'', ''e'', ''w'', ''sw'', ''s'', ''se'']
        then Inl ValueError
        else case map_of (options geohash) direction' of
               None \<Rightarrow> Inl KeyError
             | Some r \<Rightarrow> r)"

text \<open>
  A dictionary display evaluates its values in order; the first one that raises ends
  the evaluation.  The dictionary is kept as an association list in insertion order.
\<close>

primrec dict_display :: "(string \<times> (error + string)) list \<Rightarrow> error + (string \<times> string) list" where
  "dict_display [] = Inr []"
| "dict_display (kv # rest) =
     (case snd kv of
        Inl e \<Rightarrow> Inl e
      | Inr v \<Rightarrow>
          (case dict_display rest of
             Inl e \<Rightarrow> Inl e
           | Inr m \<Rightarrow> Inr ((fst kv, v) # m)))"

definition geohash_neighbours :: "string \<Rightarrow> error + (string \<times> string) list" where
  "geohash_neighbours geohash =
     dict_display
       (map (\<lambda>d. (d, geohash_neighbour geohash d))
          [''nw'', ''n'', ''ne'', ''w'', ''e'', ''sw'', ''s'', ''se''])"

section \<open>Bounds and decoding\<close>

text \<open>
  A Python float is an IEEE 754 binary64 number, here the real number it denotes.  The
  comparisons of floats are exact; an addition or a division returns the exact result
  rounded to the nearest binary64 number, a tie going to the even significand.
\<close>

definition round_half_even :: "real \<Rightarrow> int" where
  "round_half_even y =
     (let f = \<lfloor>y\<rfloor>; d = y - of_int f
      in if d < 1 / 2 then f else if d > 1 / 2 then f + 1
         else if even f then f else f + 1)"

text \<open>
  The binary64 numbers around \<open>x\<close> are the multiples of \<open>2 ^ quantum_exp x\<close>: the
  significand has 53 bits, and the exponent does not go below that of the subnormal
  numbers.  Overflow is left out: no value of this module exceeds 360 in magnitude.
\<close>

definition quantum_exp :: "real \<Rightarrow> int" where
  "quantum_exp x = max (\<lfloor>log 2 \<bar>x\<bar>\<rfloor> - 52) (- 1074)"

definition binary64 :: "real \<Rightarrow> real" where
  "binary64 x =
     (if x = 0 then 0
      else of_int (round_half_even (x / 2 powr of_int (quantum_exp x))) *
           2 powr of_int (quantum_exp x))"

text \<open>\<open>(lo + hi) / 2.0\<close>: a rounded sum, then a rounded quotient.\<close>

definition midpoint :: "real \<Rightarrow> real \<Rightarrow> real" where
  "midpoint lo hi = binary64 (binary64 (lo + hi) / 2)"

record 'a location =
  lat :: 'a
  lon :: 'a

record bounds =
  sw :: "real location"
  ne :: "real location"

record bstate =
  even_bit :: bool
  lat_min :: real
  lat_max :: real
  lon_min :: real
  lon_max :: real

definition init_bstate :: bstate where
  "init_bstate =
     \<lparr>even_bit = True, lat_min = -90, lat_max = 90, lon_min = -180, lon_max = 180\<rparr>"

text \<open>The module-level loop that fills \<open>__decodemap\<close>.\<close>

definition decodemap :: "char \<rightharpoonup> int" where
  "decodemap = fold (\<lambda>i m. m(base32 ! i \<mapsto> int i)) [0..<length base32] Map.empty"

text \<open>The body of the inner loop of \<open>geohash_bounds\<close>, for the bit \<open>bit_n\<close>.\<close>

definition bounds_bit :: "int \<Rightarrow> bstate \<Rightarrow> bstate" where
  "bounds_bit bit_n st =
     (let st' =
        (if even_bit st then
           let lon_mid = midpoint (lon_min st) (lon_max st) in
           if bit_n = 1 then st\<lparr>lon_min := lon_mid\<rparr> else st\<lparr>lon_max := lon_mid\<rparr>
         else
           let lat_mid = midpoint (lat_min st) (lat_max st) in
           if bit_n = 1 then st\<lparr>lat_min := lat_mid\<rparr> else st\<lparr>lat_max := lat_mid\<rparr>)
      in st'\<lparr>even_bit := \<not> even_bit st'\<rparr>)"

text \<open>
  One round of the outer loop: the lookup in \<open>__decodemap\<close> raises \<open>KeyError\<close> for a
  missing key, then \<open>nn\<close> runs over \<open>range(4, -1, -1)\<close> and the bit is
  \<open>idx >> nn & 1\<close>.
\<close>

definition bounds_char :: "char \<Rightarrow> bstate \<Rightarrow> error + bstate" where
  "bounds_char char st =
     (case decodemap char of
        None \<Rightarrow> Inl KeyError
      | Some idx \<Rightarrow>
          if idx = -1 then Inl Exception
          else Inr (fold (\<lambda>nn. bounds_bit (and (drop_bit nn idx) 1)) [4, 3, 2, 1, 0] st))"

primrec bounds_loop :: "string \<Rightarrow> bstate \<Rightarrow> error + bstate" where
  "bounds_loop [] st = Inr st"
| "bounds_loop (char # rest) st =
     (case bounds_char char st of
        Inl e \<Rightarrow> Inl e
      | Inr st' \<Rightarrow> bounds_loop rest st')"

definition geohash_bounds :: "string \<Rightarrow> error + bounds" where
  "geohash_bounds geohash =
     (if length geohash = 0 then Inl ValueError
      else
        case bounds_loop (lower geohash) init_bstate of
          Inl e \<Rightarrow> Inl e
        | Inr st \<Rightarrow>
            Inr \<lparr>sw = \<lparr>lat = lat_min st, lon = lon_min st\<rparr>,
                 ne = \<lparr>lat = lat_max st, lon = lon_max st\<rparr>\<rparr>)"

text \<open>
  \<open>round(x, n)\<close> rounds to \<open>n\<close> decimal digits, a tie going to the even neighbour; a
  negative \<open>n\<close> rounds to tens, hundreds and so on.  The logarithms, their quotient
  and the decimal rounding of \<open>geohash_decode\<close> are taken over the reals, without the
  rounding of each float operation: nothing below depends on the digits they give.
\<close>

definition py_round :: "real \<Rightarrow> int \<Rightarrow> real" where
  "py_round x n =
     (if 0 \<le> n then of_int (round_half_even (x * 10 ^ nat n)) / 10 ^ nat n
      else of_int (round_half_even (x / 10 ^ nat (- n))) * 10 ^ nat (- n))"

text \<open>
  \<open>math.log\<close> raises \<open>ValueError\<close> outside the positive reals.  Its argument
  \<open>hi - lo\<close> is a float difference, which is zero only for equal floats.
\<close>

definition math_log :: "real \<Rightarrow> error + real" where
  "math_log x = (if x \<le> 0 then Inl ValueError else Inr (ln x))"

definition round_centre :: "real \<Rightarrow> real \<Rightarrow> error + real" where
  "round_centre lo hi =
     (case math_log (hi - lo) of
        Inl e \<Rightarrow> Inl e
      | Inr l \<Rightarrow> Inr (py_round (midpoint lo hi) \<lfloor>2 - l / ln 10\<rfloor>))"

definition geohash_decode :: "string \<Rightarrow> error + real location" where
  "geohash_decode geohash =
     (case geohash_bounds geohash of
        Inl e \<Rightarrow> Inl e
      | Inr b \<Rightarrow>
          (case round_centre (lat (sw b)) (lat (ne b)) of
             Inl e \<Rightarrow> Inl e
           | Inr lat' \<Rightarrow>
               (case round_centre (lon (sw b)) (lon (ne b)) of
                  Inl e \<Rightarrow> Inl e
                | Inr lon' \<Rightarrow> Inr \<lparr>lat = lat', lon = lon'\<rparr>)))"

section \<open>Encoding\<close>

record estate = bstate +
  idx :: int
  bitn :: nat
  geohash :: string

definition init_estate :: estate where
  "init_estate =
     \<lparr>even_bit = True, lat_min = -90, lat_max = 90, lon_min = -180, lon_max = 180,
      idx = 0, bitn = 0, geohash = []\<rparr>"

text \<open>\<open>s[i]\<close> on a string: a negative index counts from the end.\<close>

definition str_get :: "string \<Rightarrow> int \<Rightarrow> error + char" where
  "str_get s i =
     (if 0 \<le> i \<and> i < int (length s) then Inr (s ! nat i)
      else if - int (length s) \<le> i \<and> i < 0 then Inr (s ! nat (int (length s) + i))
      else Inl IndexError)"

text \<open>The body of the \<open>while\<close> loop of \<open>geohash_encode\<close>.\<close>

definition encode_body :: "real \<Rightarrow> real \<Rightarrow> estate \<Rightarrow> error + estate" where
  "encode_body lat' lon' s =
     (let s1 =
        (if even_bit s then
           let lon_mid = midpoint (lon_min s) (lon_max s) in
           if lon' \<ge> lon_mid then s\<lparr>idx := 2 * idx s + 1, lon_min := lon_mid\<rparr>
           else s\<lparr>idx := 2 * idx s, lon_max := lon_mid\<rparr>
         else
           let lat_mid = midpoint (lat_min s) (lat_max s) in
           if lat' \<ge> lat_mid then s\<lparr>idx := 2 * idx s + 1, lat_min := lat_mid\<rparr>
           else s\<lparr>idx := 2 * idx s, lat_max := lat_mid\<rparr>);
          s2 = s1\<lparr>even_bit := \<not> even_bit s1\<rparr>;
          s3 = s2\<lparr>bitn := bitn s2 + 1\<rparr>
      in if bitn s3 = 5 then
           (case str_get base32 (idx s3) of
              Inl e \<Rightarrow> Inl e
            | Inr ch \<Rightarrow> Inr (s3\<lparr>geohash := geohash s3 @ [ch], bitn := 0, idx := 0\<rparr>))
         else Inr s3)"

text \<open>
  The \<open>while\<close> loop; \<open>None\<close> stands for a loop that never ends.
\<close>

partial_function (option) encode_loop ::
  "real \<Rightarrow> real \<Rightarrow> int \<Rightarrow> estate \<Rightarrow> (error + estate) option" where
  "encode_loop lat' lon' precision s =
     (if int (length (geohash s)) < precision then
        (case encode_body lat' lon' s of
           Inl e \<Rightarrow> Some (Inl e)
         | Inr s' \<Rightarrow> encode_loop lat' lon' precision s')
      else Some (Inr s))"

text \<open>
  \<open>geohash_encode\<close>: \<open>None\<close> in a field of \<open>loc\<close> or for \<open>precision\<close> is Python's
  \<open>None\<close>; the outer \<open>option\<close> of the result is that of the loop.
\<close>

definition geohash_encode :: "real option location \<Rightarrow> int option \<Rightarrow> (error + string) option" where
  "geohash_encode loc precision =
     (case lat loc of
        None \<Rightarrow> Some (Inl ValueError)
      | Some lat' \<Rightarrow>
     (case lon loc of
        None \<Rightarrow> Some (Inl ValueError)
      | Some lon' \<Rightarrow>
          if lat' < -90 \<or> lat' > 90 then Some (Inl ValueError)
          else if lon' < -180 \<or> lon' > 180 then Some (Inl ValueError)
          else
            (case precision of
               None \<Rightarrow> Some (Inl ValueError)
             | Some p \<Rightarrow>
                 (case encode_loop lat' lon' p init_estate of
                    None \<Rightarrow> None
                  | Some (Inl e) \<Rightarrow> Some (Inl e)
                  | Some (Inr s) \<Rightarrow> Some (Inr (geohash s))))))"

section \<open>Auxiliary notions for the proofs\<close>

text \<open>
  The test of the \<open>try\<close> block of \<open>geohash_adjacent\<close>, without the emptiness of the
  parent: the last character is found in the border string at a non-zero index.
\<close>

definition crosses :: "string \<Rightarrow> nat \<Rightarrow> char \<Rightarrow> bool" where
  "crosses direction ttype last_ch =
     (case border_index direction ttype last_ch of Inl e \<Rightarrow> False | Inr i \<Rightarrow> i \<noteq> 0)"

text \<open>
  \<open>str.upper\<close> on the ASCII letters, which is all that an upper-cased geohash or
  direction code contains.
\<close>

definition upper_char :: "char \<Rightarrow> char" where
  "upper_char c =
     (let n = (of_char c :: nat)
      in if 97 \<le> n \<and> n \<le> 122 then char_of (n - 32) else c)"

definition upper :: "string \<Rightarrow> string" where
  "upper s = map upper_char s"

text \<open>The binary64 numbers, without the bound of overflow.\<close>

definition representable :: "real \<Rightarrow> bool" where
  "representable y =
     (\<exists>m e. \<bar>m\<bar> \<le> (2::int) ^ 53 \<and> (- 1074::int) \<le> e \<and> y = of_int m * 2 powr of_int e)"

text \<open>Both ranges of a bounds state are ordered, and the four bounds are floats.\<close>

definition proper :: "'a bstate_scheme \<Rightarrow> bool" where
  "proper st =
     (lat_min st \<le> lat_max st \<and> lon_min st \<le> lon_max st \<and>
      representable (lat_min st) \<and> representable (lat_max st) \<and>
      representable (lon_min st) \<and> representable (lon_max st))"

text \<open>The \<open>n\<close> low bits of \<open>i\<close>, the most significant first, each as \<open>i >> nn & 1\<close>.\<close>

definition bits_of :: "nat \<Rightarrow> int \<Rightarrow> int list" where
  "bits_of n i = map (\<lambda>nn. and (drop_bit nn i) 1) (rev [0..<n])"

text \<open>Two states agree on the active axis and on the four bounds.\<close>

definition same_box :: "'a bstate_scheme \<Rightarrow> 'b bstate_scheme \<Rightarrow> bool" where
  "same_box s st =
     (even_bit s = even_bit st \<and> lat_min s = lat_min st \<and> lat_max s = lat_max st \<and>
      lon_min s = lon_min st \<and> lon_max s = lon_max st)"

text \<open>
  The invariant of the loop of \<open>geohash_encode\<close>: fewer than five pending bits, held
  in \<open>idx\<close>; the characters produced so far are in the alphabet; the bounds are those
  that decoding these characters and then the pending bits gives; and they contain the
  coordinate.
\<close>

definition einv :: "real \<Rightarrow> real \<Rightarrow> estate \<Rightarrow> bool" where
  "einv lat' lon' s =
     (bitn s < 5 \<and> 0 \<le> idx s \<and> idx s < 2 ^ bitn s \<and> set (geohash s) \<subseteq> set base32 \<and>
      (case bounds_loop (geohash s) init_bstate of
         Inl e \<Rightarrow> False
       | Inr st \<Rightarrow> same_box s (fold bounds_bit (bits_of (bitn s) (idx s)) st)) \<and>
      lat_min s \<le> lat' \<and> lat' \<le> lat_max s \<and> lon_min s \<le> lon' \<and> lon' \<le> lon_max s)"

text \<open>The bit that one round of the loop of \<open>geohash_encode\<close> produces.\<close>

definition next_bit :: "real \<Rightarrow> real \<Rightarrow> estate \<Rightarrow> int" where
  "next_bit lat' lon' s =
     (if even_bit s then (if lon' \<ge> midpoint (lon_min s) (lon_max s) then 1 else 0)
      else (if lat' \<ge> midpoint (lat_min s) (lat_max s) then 1 else 0))"

text \<open>The state of that round before the test \<open>bit == 5\<close>.\<close>

definition bisect :: "real \<Rightarrow> real \<Rightarrow> estate \<Rightarrow> estate" where
  "bisect lat' lon' s =
     (let s1 =
        (if even_bit s then
           let lon_mid = midpoint (lon_min s) (lon_max s) in
           if lon' \<ge> lon_mid then s\<lparr>idx := 2 * idx s + 1, lon_min := lon_mid\<rparr>
           else s\<lparr>idx := 2 * idx s, lon_max := lon_mid\<rparr>
         else
           let lat_mid = midpoint (lat_min s) (lat_max s) in
           if lat' \<ge> lat_mid then s\<lparr>idx := 2 * idx s + 1, lat_min := lat_mid\<rparr>
           else s\<lparr>idx := 2 * idx s, lat_max := lat_mid\<rparr>);
          s2 = s1\<lparr>even_bit := \<not> even_bit s1\<rparr>
      in s2\<lparr>bitn := bitn s2 + 1\<rparr>)"

section \<open>Basic facts about the helpers and the tables\<close>

lemma lower_base32: "\<forall>c\<in>set base32. lower_char c = c"
  by (simp add: base32_def lower_char_def)

lemma lower_char_idem: "lower_char (lower_char c) = lower_char c"
  unfolding lower_char_def Let_def
  by auto

lemma lower_idem: "lower (lower s) = lower s"
  by (simp add: lower_def lower_char_idem)

lemma length_lower [simp]: "length (lower s) = length s" by (simp add: lower_def)
lemma lower_Nil [simp]: "lower s = [] \<longleftrightarrow> s = []" by (simp add: lower_def)

lemma str_index_less: "str_index s c = Inr i \<Longrightarrow> i < length s \<and> s ! i = c"
  by (induction s arbitrary: i) (auto split: if_splits sum.splits)

lemma str_index_err: "str_index s c = Inl e \<Longrightarrow> e = ValueError \<and> c \<notin> set s"
  by (induction s) (auto split: if_splits sum.splits)

lemma str_index_mem: "c \<in> set s \<Longrightarrow> \<exists>i. str_index s c = Inr i"
  by (induction s) (auto split: if_splits sum.splits)

lemma valid_dir: "length d = 1 \<Longrightarrow> str_in d ''nsew'' \<Longrightarrow> d \<in> set dirs"
  by (cases d) (auto simp: dirs_def)

lemma dirs_length: "d \<in> set dirs \<Longrightarrow> length d = 1" by (auto simp: dirs_def)
lemma dirs_lower: "d \<in> set dirs \<Longrightarrow> lower d = d" by (auto simp: dirs_def lower_def lower_char_def)
lemma dirs_str_in: "d \<in> set dirs \<Longrightarrow> str_in d ''nsew''" by (auto simp: dirs_def)

lemma length_base32: "length base32 = 32" by (simp add: base32_def)
lemma distinct_base32: "distinct base32" by (simp add: base32_def)

lemma tables: "\<forall>d\<in>set dirs. \<forall>t\<in>{0,1}. \<exists>b nb. table_get border d t = Inr b \<and> table_get neighbour d t = Inr nb \<and> set base32 \<subseteq> set nb \<and> length nb = 32 \<and> set b \<subseteq> set base32"
  by (simp add: dirs_def table_get_def border_def neighbour_def base32_def)

lemma table_border: assumes "d \<in> set dirs" "t < 2"
  shows "\<exists>b. table_get border d t = Inr b \<and> set b \<subseteq> set base32"
proof -
  from assms(2) have "t \<in> {0,1}" by auto
  with tables assms(1) show ?thesis by blast
qed

lemma table_neighbour: assumes "d \<in> set dirs" "t < 2"
  shows "\<exists>nb. table_get neighbour d t = Inr nb \<and> set nb = set base32 \<and> length nb = 32"
proof -
  from assms(2) have "t \<in> {0,1}" by auto
  with tables assms(1) obtain nb where nb: "table_get neighbour d t = Inr nb" "set base32 \<subseteq> set nb" "length nb = 32"
    by blast
  have "card (set base32) = 32" using distinct_card[OF distinct_base32] length_base32 by simp
  moreover have "card (set nb) \<le> 32" using card_length[of nb] nb(3) by simp
  ultimately have "set nb = set base32" using nb(2)
    by (metis List.finite_set card_seteq)
  with nb show ?thesis by blast
qed

lemma border_index_err: assumes "d \<in> set dirs" "t < 2" "border_index d t c = Inl e" shows "e = ValueError"
proof -
  from table_border[OF assms(1,2)] obtain b where b: "table_get border d t = Inr b" by blast
  with assms(3) have "str_index b c = Inl e" by (simp add: border_index_def)
  then show ?thesis using str_index_err by blast
qed

lemma neighbour_char_ok: assumes "d \<in> set dirs" "t < 2" "c \<in> set base32"
  shows "\<exists>ch. neighbour_char d t c = Inr ch \<and> ch \<in> set base32"
proof -
  from table_neighbour[OF assms(1,2)] obtain nb where nb: "table_get neighbour d t = Inr nb" "length nb = 32" "set nb = set base32"
    by blast
  with assms(3) obtain i where i: "str_index nb c = Inr i" using str_index_mem by blast
  then have "i < 32" using str_index_less nb by fastforce
  then show ?thesis using nb(1) i by (simp add: neighbour_char_def length_base32)
qed

lemma neighbour_char_bad: assumes "d \<in> set dirs" "t < 2" "c \<notin> set base32"
  shows "neighbour_char d t c = Inl ValueError"
proof -
  from table_neighbour[OF assms(1,2)] obtain nb where nb: "table_get neighbour d t = Inr nb" "set nb = set base32"
    by blast
  then have "c \<notin> set nb" using assms by simp
  then have "str_index nb c = Inl ValueError"
    by (cases "str_index nb c") (auto dest: str_index_err str_index_less)
  then show ?thesis using nb by (simp add: neighbour_char_def)
qed

lemma neighbour_char_err: assumes "d \<in> set dirs" "t < 2" "neighbour_char d t c = Inl e"
  shows "e = ValueError"
  using assms neighbour_char_ok[OF assms(1,2), of c] neighbour_char_bad[OF assms(1,2), of c]
  by (cases "c \<in> set base32") auto


section \<open>Adjacency: concrete scenarios\<close>

text \<open>
  C3.  On the geohash \<open>sr2yk3bsm\<close> the adjacency operation returns \<open>sr2yk3bst\<close>
  to the north, \<open>sr2yk3bsj\<close> to the south, \<open>sr2yk3bsk\<close> to the west and
  \<open>sr2yk3bsq\<close> to the east.
\<close>

theorem C3_adjacent_scenarios:
  "geohash_adjacent ''sr2yk3bsm'' ''n'' = Inr ''sr2yk3bst'' \<and>
   geohash_adjacent ''sr2yk3bsm'' ''s'' = Inr ''sr2yk3bsj'' \<and>
   geohash_adjacent ''sr2yk3bsm'' ''w'' = Inr ''sr2yk3bsk'' \<and>
   geohash_adjacent ''sr2yk3bsm'' ''e'' = Inr ''sr2yk3bsq''"
  by code_simp

lemma adjacent_invalid:
  "g = [] \<or> length d \<noteq> 1 \<or> \<not> str_in (lower d) ''nsew'' \<Longrightarrow> geohash_adjacent g d = Inl ValueError"
  by (subst geohash_adjacent.simps) (auto simp del: str_in.simps)

lemma adjacent_lower: "geohash_adjacent g d = geohash_adjacent (lower g) (lower d)"
  apply (subst geohash_adjacent.simps[of g d])
  apply (subst geohash_adjacent.simps[of "lower g" "lower d"])
  unfolding lower_idem length_lower
  by (rule refl)

lemma adjacent_eq:
  assumes "g \<noteq> []" "d \<in> set dirs" "lower g = g"
  shows "geohash_adjacent g d =
     (case (case (case border_index d (length g mod 2) (last g) of
                   Inl e \<Rightarrow> Inl e
                 | Inr i \<Rightarrow>
                     if i \<noteq> 0 \<and> butlast g \<noteq> []
                     then geohash_adjacent (butlast g) d
                     else Inr (butlast g)) of Inl ValueError \<Rightarrow> Inr (butlast g) | r \<Rightarrow> r) of
               Inl e \<Rightarrow> Inl e
             | Inr p \<Rightarrow>
                 (case neighbour_char d (length g mod 2) (last g) of
                    Inl e \<Rightarrow> Inl e
                  | Inr ch \<Rightarrow> Inr (p @ [ch])))"
proof -
  have d: "length d = 1" "lower d = d" "str_in d ''nsew''"
    using assms(2) dirs_length dirs_lower dirs_str_in by auto
  show ?thesis
    apply (subst geohash_adjacent.simps)
    unfolding d assms(3) Let_def
    using assms(1) d(3) by (simp del: str_in.simps)
qed

lemma lower_butlast: "lower g = g \<Longrightarrow> lower (butlast g) = butlast g"
  by (metis lower_def map_butlast)

lemma adj_err_low:
  "d \<in> set dirs \<Longrightarrow> lower g = g \<Longrightarrow> geohash_adjacent g d = Inl e \<Longrightarrow> e = ValueError"
proof (induction "length g" arbitrary: g e rule: less_induct)
  case less
  show ?case
  proof (cases "g = []")
    case True
    then show ?thesis using less.prems(3) adjacent_invalid[of g d] by simp
  next
    case False
    define t where "t = length g mod 2"
    have t: "t < 2" by (simp add: t_def)
    define T where "T = (case border_index d t (last g) of
                   Inl e \<Rightarrow> Inl e
                 | Inr i \<Rightarrow>
                     if i \<noteq> 0 \<and> butlast g \<noteq> []
                     then geohash_adjacent (butlast g) d
                     else Inr (butlast g))"
    have rec: "\<And>e'. geohash_adjacent (butlast g) d = Inl e' \<Longrightarrow> e' = ValueError"
      using less.hyps[of "butlast g"] less.prems(1,2) False lower_butlast by simp
    have Terr: "\<And>e'. T = Inl e' \<Longrightarrow> e' = ValueError"
      unfolding T_def using border_index_err[OF less.prems(1) t] rec
      by (auto split: sum.splits if_splits)
    obtain q where q: "(case T of Inl ValueError \<Rightarrow> Inr (butlast g) | r \<Rightarrow> r) = Inr q"
      using Terr by (cases T) auto
    have "geohash_adjacent g d = (case neighbour_char d t (last g) of
                    Inl e \<Rightarrow> Inl e
                  | Inr ch \<Rightarrow> Inr (q @ [ch]))"
      using adjacent_eq[OF False less.prems(1,2)] q unfolding T_def t_def by simp
    with less.prems(3) have "neighbour_char d t (last g) = Inl e"
      by (auto split: sum.splits)
    then show ?thesis using neighbour_char_err[OF less.prems(1) t] by blast
  qed
qed

lemma adj_err: "geohash_adjacent g d = Inl e \<Longrightarrow> e = ValueError"
proof (cases "g = [] \<or> length d \<noteq> 1 \<or> \<not> str_in (lower d) ''nsew''")
  case True
  assume "geohash_adjacent g d = Inl e"
  then show ?thesis using adjacent_invalid[OF True] by simp
next
  case False
  assume a: "geohash_adjacent g d = Inl e"
  from False have "lower d \<in> set dirs" using valid_dir[of "lower d"] by simp
  then show ?thesis using adj_err_low[of "lower d" "lower g" e] a adjacent_lower[of g d] lower_idem by simp
qed

lemma adj_step:
  assumes "d \<in> set dirs" "lower g = g" "g \<noteq> []"
  shows "geohash_adjacent g d =
     (case neighbour_char d (length g mod 2) (last g) of
        Inl e \<Rightarrow> Inl e
      | Inr ch \<Rightarrow>
          Inr ((if crosses d (length g mod 2) (last g) \<and> butlast g \<noteq> []
                then (case geohash_adjacent (butlast g) d of Inl e \<Rightarrow> butlast g | Inr p \<Rightarrow> p)
                else butlast g) @ [ch]))"
proof -
  have e: "\<And>x. border_index d (length g mod 2) (last g) = Inl x \<Longrightarrow> x = ValueError"
    using border_index_err[OF assms(1), of "length g mod 2"] by simp
  have r: "\<And>x. geohash_adjacent (butlast g) d = Inl x \<Longrightarrow> x = ValueError"
    using adj_err by blast
  show ?thesis
    unfolding adjacent_eq[OF assms(3,1,2)] crosses_def
    using e r by (auto split: sum.splits)
qed

lemma lower_fixed: "set g \<subseteq> set base32 \<Longrightarrow> lower g = g"
  using lower_base32 by (auto simp: lower_def intro: map_idI)

lemma lower_snoc: "lower q = q \<Longrightarrow> ch \<in> set base32 \<Longrightarrow> lower (q @ [ch]) = q @ [ch]"
  using lower_base32 by (simp add: lower_def)

lemma last_lower: "g \<noteq> [] \<Longrightarrow> last (lower g) = lower_char (last g)"
  by (simp add: lower_def last_map)

lemma adj_Inr_low:
  "d \<in> set dirs \<Longrightarrow> lower g = g \<Longrightarrow> geohash_adjacent g d = Inr r \<Longrightarrow>
   length r = length g \<and> lower r = r \<and> r \<noteq> [] \<and> last r \<in> set base32 \<and> last g \<in> set base32 \<and>
   (set g \<subseteq> set base32 \<longrightarrow> set r \<subseteq> set base32)"
proof (induction "length g" arbitrary: g r rule: less_induct)
  case less
  have ne: "g \<noteq> []" using less.prems(3) adjacent_invalid[of g d] by auto
  define t where "t = length g mod 2"
  have t: "t < 2" by (simp add: t_def)
  define q where "q = (if crosses d t (last g) \<and> butlast g \<noteq> []
                then (case geohash_adjacent (butlast g) d of Inl e \<Rightarrow> butlast g | Inr p \<Rightarrow> p)
                else butlast g)"
  have step: "geohash_adjacent g d = (case neighbour_char d t (last g) of Inl e \<Rightarrow> Inl e | Inr ch \<Rightarrow> Inr (q @ [ch]))"
    unfolding q_def t_def by (rule adj_step[OF less.prems(1,2) ne])
  with less.prems(3) obtain ch where ch: "neighbour_char d t (last g) = Inr ch" "r = q @ [ch]"
    by (auto split: sum.splits)
  have lastg: "last g \<in> set base32"
    using ch(1) neighbour_char_bad[OF less.prems(1) t, of "last g"] by auto
  have chb: "ch \<in> set base32"
    using ch(1) neighbour_char_ok[OF less.prems(1) t lastg] by auto
  have lb: "lower (butlast g) = butlast g" using less.prems(2) lower_butlast by blast
  have qprops: "length q = length (butlast g) \<and> lower q = q \<and> (set g \<subseteq> set base32 \<longrightarrow> set q \<subseteq> set base32)"
  proof (cases "crosses d t (last g) \<and> butlast g \<noteq> []")
    case True
    show ?thesis
    proof (cases "geohash_adjacent (butlast g) d")
      case (Inl e)
      then have "q = butlast g" using True by (simp add: q_def)
      then show ?thesis using lb by (auto dest: in_set_butlastD)
    next
      case (Inr p)
      then have qp: "q = p" using True by (simp add: q_def)
      have "length (butlast g) < length g" using ne by simp
      from less.hyps[OF this less.prems(1) lb Inr]
      show ?thesis using qp by (auto dest: in_set_butlastD)
    qed
  next
    case False
    then have "q = butlast g" by (auto simp add: q_def)
    then show ?thesis using lb by (auto dest: in_set_butlastD)
  qed
  show ?case
    using qprops ch(2) chb lastg ne lower_snoc[of q ch] by auto
qed

lemma adjacent_fail:
  assumes "g \<noteq> []" "length d = 1" "str_in (lower d) ''nsew''" "lower_char (last g) \<notin> set base32"
  shows "geohash_adjacent g d = Inl ValueError"
proof -
  have d: "lower d \<in> set dirs" using assms(2,3) valid_dir[of "lower d"] by simp
  have ne: "lower g \<noteq> []" using assms(1) by simp
  have "neighbour_char (lower d) (length (lower g) mod 2) (last (lower g)) = Inl ValueError"
    using neighbour_char_bad[OF d, of "length (lower g) mod 2" "last (lower g)"] assms(4) last_lower[OF assms(1)]
    by simp
  then have "geohash_adjacent (lower g) (lower d) = Inl ValueError"
    using adj_step[OF d lower_idem ne] by simp
  then show ?thesis using adjacent_lower[of g d] by simp
qed

lemma adjacent_ok:
  assumes "g \<noteq> []" "length d = 1" "str_in (lower d) ''nsew''" "lower_char (last g) \<in> set base32"
  shows "\<exists>r. geohash_adjacent g d = Inr r \<and> length r = length g \<and> lower r = r \<and> r \<noteq> [] \<and>
             last r \<in> set base32 \<and> (set g \<subseteq> set base32 \<longrightarrow> set r \<subseteq> set base32)"
proof -
  have d: "lower d \<in> set dirs" using assms(2,3) valid_dir[of "lower d"] by simp
  have ne: "lower g \<noteq> []" using assms(1) by simp
  obtain ch where "neighbour_char (lower d) (length (lower g) mod 2) (last (lower g)) = Inr ch"
    using neighbour_char_ok[OF d, of "length (lower g) mod 2" "last (lower g)"] assms(4) last_lower[OF assms(1)]
    by auto
  then obtain r where r: "geohash_adjacent (lower g) (lower d) = Inr r"
    using adj_step[OF d lower_idem ne] by simp
  from adj_Inr_low[OF d lower_idem r] r adjacent_lower[of g d]
  show ?thesis using lower_fixed[of g] by auto
qed

lemma dir_literals:
  "length ''n'' = 1" "length ''s'' = 1" "length ''e'' = 1" "length ''w'' = 1"
  "str_in (lower ''n'') ''nsew''" "str_in (lower ''s'') ''nsew''"
  "str_in (lower ''e'') ''nsew''" "str_in (lower ''w'') ''nsew''"
  by (simp_all add: lower_def lower_char_def)

lemma adjacent2_ok:
  assumes "g \<noteq> []" "lower_char (last g) \<in> set base32"
    "length a = 1" "str_in (lower a) ''nsew''" "length b = 1" "str_in (lower b) ''nsew''"
  shows "\<exists>r. adjacent2 g a b = Inr r \<and> length r = length g"
proof -
  from adjacent_ok[OF assms(1,3,4,2)] obtain r1 where
    r1: "geohash_adjacent g a = Inr r1" "length r1 = length g" "r1 \<noteq> []" "last r1 \<in> set base32"
    by blast
  have "lower_char (last r1) \<in> set base32" using r1(4) lower_base32 by simp
  from adjacent_ok[OF r1(3) assms(5,6) this] r1(1,2)
  show ?thesis by (auto simp: adjacent2_def)
qed

lemma neighbour_eval:
  assumes "h \<noteq> []"
  shows "geohash_neighbour h ''nw'' = adjacent2 h ''n'' ''w''"
    "geohash_neighbour h ''n'' = geohash_adjacent h ''n''"
    "geohash_neighbour h ''ne'' = adjacent2 h ''n'' ''e''"
    "geohash_neighbour h ''w'' = geohash_adjacent h ''w''"
    "geohash_neighbour h ''e'' = geohash_adjacent h ''e''"
    "geohash_neighbour h ''sw'' = adjacent2 h ''s'' ''w''"
    "geohash_neighbour h ''s'' = geohash_adjacent h ''s''"
    "geohash_neighbour h ''se'' = adjacent2 h ''s'' ''e''"
  using assms
  by (simp_all add: geohash_neighbour_def options_def lower_def lower_char_def)

lemma over_alphabet_last:
  "h \<noteq> [] \<Longrightarrow> set h \<subseteq> set base32 \<Longrightarrow> lower_char (last h) \<in> set base32"
proof -
  assume a: "h \<noteq> []" "set h \<subseteq> set base32"
  then have m: "last h \<in> set base32" using last_in_set[of h] by blast
  then have "lower_char (last h) = last h" using lower_base32 by blast
  with m show ?thesis by simp
qed

lemma adjacent_ok_dirs:
  assumes "h \<noteq> []" "lower_char (last h) \<in> set base32" "d \<in> set dirs"
  shows "\<exists>r. geohash_adjacent h d = Inr r \<and> length r = length h"
proof -
  have "length d = 1" "str_in (lower d) ''nsew''"
    using assms(3) dirs_length dirs_lower dirs_str_in by simp_all
  from adjacent_ok[OF assms(1) this assms(2)] show ?thesis by blast
qed

lemma adjacent2_ok_dirs:
  assumes "h \<noteq> []" "lower_char (last h) \<in> set base32" "a \<in> set dirs" "b \<in> set dirs"
  shows "\<exists>r. adjacent2 h a b = Inr r \<and> length r = length h"
proof -
  have "length a = 1" "str_in (lower a) ''nsew''" "length b = 1" "str_in (lower b) ''nsew''"
    using assms(3,4) dirs_length dirs_lower dirs_str_in by simp_all
  from adjacent2_ok[OF assms(1,2) this] show ?thesis .
qed

lemma dirs_literals: "''n'' \<in> set dirs" "''s'' \<in> set dirs" "''e'' \<in> set dirs" "''w'' \<in> set dirs"
  by (simp_all add: dirs_def)

text \<open>
  C9.  For every non-empty geohash \<open>h\<close> over the alphabet, \<open>geohash_neighbours h\<close>
  returns a dictionary whose keys are exactly the eight distinct direction names
  nw, n, ne, w, e, sw, s, se, and each of its values has the length of \<open>h\<close>.
\<close>

theorem C9_neighbours:
  assumes "h \<noteq> []" "set h \<subseteq> set base32"
  shows "\<exists>m. geohash_neighbours h = Inr m \<and>
             map fst m = [''nw'', ''n'', ''ne'', ''w'', ''e'', ''sw'', ''s'', ''se''] \<and>
             distinct (map fst m) \<and> length m = 8 \<and>
             list_all (\<lambda>v. length v = length h) (map snd m)"
proof -
  have l: "lower_char (last h) \<in> set base32"
    using over_alphabet_last[OF assms] .
  note one = adjacent_ok_dirs[OF assms(1) l]
  note two = adjacent2_ok_dirs[OF assms(1) l]
  from two[OF dirs_literals(1) dirs_literals(4)]
  obtain nw where nw: "adjacent2 h ''n'' ''w'' = Inr nw" "length nw = length h" by blast
  from two[OF dirs_literals(1) dirs_literals(3)]
  obtain ne where ne: "adjacent2 h ''n'' ''e'' = Inr ne" "length ne = length h" by blast
  from two[OF dirs_literals(2) dirs_literals(4)]
  obtain sw where sw: "adjacent2 h ''s'' ''w'' = Inr sw" "length sw = length h" by blast
  from two[OF dirs_literals(2) dirs_literals(3)]
  obtain se where se: "adjacent2 h ''s'' ''e'' = Inr se" "length se = length h" by blast
  from one[OF dirs_literals(1)]
  obtain n where n: "geohash_adjacent h ''n'' = Inr n" "length n = length h" by blast
  from one[OF dirs_literals(2)]
  obtain s where s: "geohash_adjacent h ''s'' = Inr s" "length s = length h" by blast
  from one[OF dirs_literals(3)]
  obtain e where e: "geohash_adjacent h ''e'' = Inr e" "length e = length h" by blast
  from one[OF dirs_literals(4)]
  obtain w where w: "geohash_adjacent h ''w'' = Inr w" "length w = length h" by blast
  have "geohash_neighbours h =
          Inr [(''nw'', nw), (''n'', n), (''ne'', ne), (''w'', w), (''e'', e),
               (''sw'', sw), (''s'', s), (''se'', se)]"
    by (simp add: geohash_neighbours_def neighbour_eval[OF assms(1)] nw(1) ne(1) sw(1) se(1) n(1) s(1) e(1) w(1))
  then show ?thesis
    by (simp add: nw(2) ne(2) sw(2) se(2) n(2) s(2) e(2) w(2))
qed

theorem C9_neighbours_witness:
  "\<exists>m. geohash_neighbours ''sr2yk3bsm'' = Inr m \<and>
       map fst m = [''nw'', ''n'', ''ne'', ''w'', ''e'', ''sw'', ''s'', ''se''] \<and>
       distinct (map fst m) \<and> length m = 8 \<and>
       list_all (\<lambda>v. length v = length ''sr2yk3bsm'') (map snd m)"
  using C9_neighbours[of "''sr2yk3bsm''"] by (simp add: base32_def)

lemma opposite_tables_exec:
  "list_all (\<lambda>dd. list_all (\<lambda>t. list_all (\<lambda>c.
      case neighbour_char (fst dd) t c of
        Inl e \<Rightarrow> False
      | Inr ch \<Rightarrow> neighbour_char (snd dd) t ch = Inr c \<and>
                 crosses (snd dd) t ch = crosses (fst dd) t c) base32) [0, 1])
     [(''n'', ''s''), (''s'', ''n''), (''e'', ''w''), (''w'', ''e'')]"
  by code_simp

lemma opposite_tables:
  assumes "(d, d') \<in> set [(''n'', ''s''), (''s'', ''n''), (''e'', ''w''), (''w'', ''e'')]"
    "t < 2" "c \<in> set base32"
  shows "\<exists>ch. neighbour_char d t c = Inr ch \<and> neighbour_char d' t ch = Inr c \<and>
          crosses d' t ch = crosses d t c"
proof -
  have t: "t \<in> set [0, 1]" using assms(2) by auto
  from opposite_tables_exec assms(1) t assms(3)
  have "case neighbour_char (fst (d, d')) t c of
        Inl e \<Rightarrow> False
      | Inr ch \<Rightarrow> neighbour_char (snd (d, d')) t ch = Inr c \<and>
                 crosses (snd (d, d')) t ch = crosses (fst (d, d')) t c"
    unfolding list_all_iff by blast
  then show ?thesis by (cases "neighbour_char d t c") simp_all
qed

lemma opposite_dirs:
  "(d, d') \<in> set [(''n'', ''s''), (''s'', ''n''), (''e'', ''w''), (''w'', ''e'')] \<Longrightarrow>
   d \<in> set dirs \<and> d' \<in> set dirs"
  by (auto simp: dirs_def)

lemma adjacent_round_trip:
  assumes "(d, d') \<in> set [(''n'', ''s''), (''s'', ''n''), (''e'', ''w''), (''w'', ''e'')]"
  shows "h \<noteq> [] \<Longrightarrow> set h \<subseteq> set base32 \<Longrightarrow>
         \<exists>g. geohash_adjacent h d = Inr g \<and> geohash_adjacent g d' = Inr h"
proof (induction "length h" arbitrary: h rule: less_induct)
  case less
  have d: "d \<in> set dirs" and d': "d' \<in> set dirs" using opposite_dirs[OF assms] by simp_all
  define t where "t = length h mod 2"
  have t: "t < 2" by (simp add: t_def)
  define P where "P = butlast h"
  define c where "c = last h"
  have h: "h = P @ [c]" using less.prems(1) by (simp add: P_def c_def)
  have cb: "c \<in> set base32" using less.prems h by auto
  have Pb: "set P \<subseteq> set base32" using less.prems(2) h by auto
  have lh: "lower h = h" using lower_fixed[OF less.prems(2)] .
  from opposite_tables[OF assms t cb] obtain ch where
    ch: "neighbour_char d t c = Inr ch" "neighbour_char d' t ch = Inr c"
        "crosses d' t ch = crosses d t c" by blast
  define q where "q = (if crosses d t c \<and> P \<noteq> []
                then (case geohash_adjacent P d of Inl e \<Rightarrow> P | Inr p \<Rightarrow> p)
                else P)"
  have step1: "geohash_adjacent h d = Inr (q @ [ch])"
    using adj_step[OF d lh less.prems(1)] ch(1) unfolding q_def t_def P_def c_def by simp
  have q: "length q = length P \<and> lower q = q \<and> (crosses d t c \<and> P \<noteq> [] \<longrightarrow> geohash_adjacent q d' = Inr P)"
  proof (cases "crosses d t c \<and> P \<noteq> []")
    case True
    have "length P < length h" using h by simp
    from less.hyps[OF this _ Pb] True obtain p where
      p: "geohash_adjacent P d = Inr p" "geohash_adjacent p d' = Inr P" by blast
    have qp: "q = p" using True p(1) by (simp add: q_def)
    have "lower P = P" using lower_fixed[OF Pb] .
    from adj_Inr_low[OF d this p(1)] qp p(2) show ?thesis by simp
  next
    case False
    then have "q = P" by (auto simp: q_def)
    then show ?thesis using lower_fixed[OF Pb] False by blast
  qed
  define g where "g = q @ [ch]"
  have chb: "ch \<in> set base32"
    using neighbour_char_ok[OF d t cb] ch(1) by simp
  have lg: "lower g = g" using lower_snoc[of q ch] q chb by (simp add: g_def)
  have gne: "g \<noteq> []" by (simp add: g_def)
  have tg: "length g mod 2 = t" using q h by (simp add: g_def t_def)
  have qe: "(q = []) = (P = [])" using q by (metis length_0_conv)
  have "geohash_adjacent g d' = Inr ((if crosses d' t ch \<and> q \<noteq> []
                then (case geohash_adjacent q d' of Inl e \<Rightarrow> q | Inr p \<Rightarrow> p)
                else q) @ [c])"
  proof -
    have lg': "last g = ch" "butlast g = q" by (simp_all add: g_def)
    show ?thesis using adj_step[OF d' lg gne, unfolded tg lg' ch(2)] by simp
  qed
  also have "(if crosses d' t ch \<and> q \<noteq> []
                then (case geohash_adjacent q d' of Inl e \<Rightarrow> q | Inr p \<Rightarrow> p)
                else q) = P"
  proof (cases "crosses d t c \<and> P \<noteq> []")
    case True
    then show ?thesis using q ch(3) qe by simp
  next
    case False
    then have "q = P" by (auto simp: q_def)
    then show ?thesis using False ch(3) by auto
  qed
  finally have "geohash_adjacent g d' = Inr h" using h by simp
  then show ?case using step1 by (simp add: g_def)
qed

text \<open>
  C2.  Stepping to the north and back to the south returns the cell one started from,
  and likewise south then north, east then west, and west then east.  This holds for
  every non-empty geohash over the alphabet, so in particular for the interior cells
  away from the pole rows and the antimeridian column.
\<close>

theorem C2_local_invertibility:
  assumes "h \<noteq> []" "set h \<subseteq> set base32"
  shows "(\<exists>g. geohash_adjacent h ''n'' = Inr g \<and> geohash_adjacent g ''s'' = Inr h) \<and>
         (\<exists>g. geohash_adjacent h ''s'' = Inr g \<and> geohash_adjacent g ''n'' = Inr h) \<and>
         (\<exists>g. geohash_adjacent h ''e'' = Inr g \<and> geohash_adjacent g ''w'' = Inr h) \<and>
         (\<exists>g. geohash_adjacent h ''w'' = Inr g \<and> geohash_adjacent g ''e'' = Inr h)"
proof -
  have "(''n'', ''s'') \<in> set [(''n'', ''s''), (''s'', ''n''), (''e'', ''w''), (''w'', ''e'')]"
    "(''s'', ''n'') \<in> set [(''n'', ''s''), (''s'', ''n''), (''e'', ''w''), (''w'', ''e'')]"
    "(''e'', ''w'') \<in> set [(''n'', ''s''), (''s'', ''n''), (''e'', ''w''), (''w'', ''e'')]"
    "(''w'', ''e'') \<in> set [(''n'', ''s''), (''s'', ''n''), (''e'', ''w''), (''w'', ''e'')]"
    by simp_all
  from this[THEN adjacent_round_trip, OF assms] show ?thesis by blast
qed

theorem C2_local_invertibility_witness:
  "(\<exists>g. geohash_adjacent ''sr2yk3bsm'' ''n'' = Inr g \<and> geohash_adjacent g ''s'' = Inr ''sr2yk3bsm'') \<and>
   (\<exists>g. geohash_adjacent ''sr2yk3bsm'' ''s'' = Inr g \<and> geohash_adjacent g ''n'' = Inr ''sr2yk3bsm'') \<and>
   (\<exists>g. geohash_adjacent ''sr2yk3bsm'' ''e'' = Inr g \<and> geohash_adjacent g ''w'' = Inr ''sr2yk3bsm'') \<and>
   (\<exists>g. geohash_adjacent ''sr2yk3bsm'' ''w'' = Inr g \<and> geohash_adjacent g ''e'' = Inr ''sr2yk3bsm'')"
  using C2_local_invertibility[of "''sr2yk3bsm''"] by (simp add: base32_def)

lemma fold_upd_nth:
  assumes "distinct xs" "n \<le> length xs"
  shows "(fold (\<lambda>i m. m(xs ! i \<mapsto> int i)) [0..<n] Map.empty) c = Some j \<longleftrightarrow>
         (0 \<le> j \<and> nat j < n \<and> xs ! nat j = c)"
  using assms(2)
proof (induction n arbitrary: j)
  case 0
  then show ?case by simp
next
  case (Suc n)
  define M where "M = fold (\<lambda>i m. m(xs ! i \<mapsto> int i)) [0..<n] Map.empty"
  have IH: "\<And>j. M c = Some j \<longleftrightarrow> (0 \<le> j \<and> nat j < n \<and> xs ! nat j = c)"
    unfolding M_def using Suc.IH[OF Suc_leD[OF Suc.prems]] .
  have unf: "fold (\<lambda>i m. m(xs ! i \<mapsto> int i)) [0..<Suc n] Map.empty = M(xs ! n \<mapsto> int n)"
    by (simp add: M_def)
  show ?case
  proof (cases "c = xs ! n")
    case True
    have "(0 \<le> j \<and> nat j < Suc n \<and> xs ! nat j = xs ! n) \<longleftrightarrow> j = int n"
    proof
      assume a: "0 \<le> j \<and> nat j < Suc n \<and> xs ! nat j = xs ! n"
      then have "nat j = n"
        using assms(1) Suc.prems nth_eq_iff_index_eq[of xs "nat j" n] by simp
      with a show "j = int n" by simp
    next
      assume "j = int n"
      then show "0 \<le> j \<and> nat j < Suc n \<and> xs ! nat j = xs ! n" by simp
    qed
    then show ?thesis unfolding unf using True by auto
  next
    case False
    have "(0 \<le> j \<and> nat j < Suc n \<and> xs ! nat j = c) \<longleftrightarrow> (0 \<le> j \<and> nat j < n \<and> xs ! nat j = c)"
      using False less_Suc_eq by auto
    then show ?thesis unfolding unf using False IH by simp
  qed
qed

lemma decodemap_Some_iff:
  "decodemap c = Some j \<longleftrightarrow> (0 \<le> j \<and> nat j < 32 \<and> base32 ! nat j = c)"
  unfolding decodemap_def
  using fold_upd_nth[OF distinct_base32, of "length base32" c j] length_base32 by simp

lemma decodemap_nth: "i < 32 \<Longrightarrow> decodemap (base32 ! i) = Some (int i)"
  using decodemap_Some_iff[of "base32 ! i" "int i"] by simp

lemma decodemap_None: "c \<notin> set base32 \<Longrightarrow> decodemap c = None"
proof (cases "decodemap c")
  case None
  then show ?thesis by simp
next
  case (Some j)
  assume n: "c \<notin> set base32"
  from Some have "nat j < length base32 \<and> base32 ! nat j = c"
    using decodemap_Some_iff[of c j] length_base32 by simp
  then have "c \<in> set base32" using nth_mem by blast
  with n show ?thesis by simp
qed

lemma decodemap_mem: "c \<in> set base32 \<Longrightarrow> \<exists>j. decodemap c = Some j \<and> 0 \<le> j \<and> j < 32"
proof -
  assume "c \<in> set base32"
  then obtain i where i: "i < length base32" "base32 ! i = c" by (auto simp: in_set_conv_nth)
  then have "decodemap c = Some (int i)" using decodemap_nth[of i] length_base32 by simp
  then show ?thesis using i(1) length_base32 by simp
qed

section \<open>Rounding to binary64\<close>

lemma rhe_cases: "round_half_even y = \<lfloor>y\<rfloor> \<or> round_half_even y = \<lfloor>y\<rfloor> + 1"
  by (simp add: round_half_even_def Let_def)

lemma rhe_nearest: "\<bar>of_int (round_half_even y) - y\<bar> \<le> \<bar>of_int k - y\<bar>"
proof -
  define f where "f = \<lfloor>y\<rfloor>"
  have f: "of_int f \<le> y" "y < of_int f + 1" unfolding f_def by linarith+
  have "k \<le> f \<or> f + 1 \<le> k" by linarith
  then have k: "(of_int k :: real) \<le> of_int f \<or> (of_int f :: real) + 1 \<le> of_int k"
    by (metis of_int_le_iff of_int_add of_int_1)
  show ?thesis
    using f k unfolding round_half_even_def Let_def f_def[symmetric]
    by (auto split: if_splits)
qed

lemma rhe_bound:
  assumes "\<bar>y\<bar> < 2 ^ 53"
  shows "\<bar>round_half_even y\<bar> \<le> 2 ^ 53"
proof -
  define f where "f = \<lfloor>y\<rfloor>"
  have "(- (2 ^ 53) :: real) \<le> y" "y < 2 ^ 53" using assms by linarith+
  then have "- (2 ^ 53) \<le> f" "f < 2 ^ 53"
    unfolding f_def by (simp_all add: le_floor_iff floor_less_iff)
  moreover have "round_half_even y = f \<or> round_half_even y = f + 1"
    unfolding f_def by (rule rhe_cases)
  ultimately show ?thesis by linarith
qed

lemma pw_pos [simp]: "0 < (2::real) powr a" by simp

lemma quantum_upper:
  assumes "x \<noteq> 0"
  shows "\<bar>x\<bar> < 2 ^ 53 * 2 powr of_int (quantum_exp x)"
proof -
  define k where "k = \<lfloor>log 2 \<bar>x\<bar>\<rfloor>"
  have ax: "0 < \<bar>x\<bar>" using assms by simp
  have "log 2 \<bar>x\<bar> < of_int k + 1" unfolding k_def by linarith
  then have "2 powr (log 2 \<bar>x\<bar>) < 2 powr (of_int k + 1)" by (simp add: powr_less_mono)
  then have a: "\<bar>x\<bar> < 2 powr (of_int k + 1)" using ax by simp
  have "of_int k + 1 \<le> (53::real) + of_int (quantum_exp x)"
    by (simp add: quantum_exp_def k_def)
  then have "(2::real) powr (of_int k + 1) \<le> 2 powr (53 + of_int (quantum_exp x))"
    by (simp add: powr_mono)
  also have "\<dots> = 2 ^ 53 * 2 powr of_int (quantum_exp x)"
    by (simp add: powr_add)
  finally show ?thesis using a by linarith
qed

lemma quantum_lower:
  assumes "x \<noteq> 0" "- 1074 < quantum_exp x"
  shows "2 ^ 52 * 2 powr of_int (quantum_exp x) \<le> \<bar>x\<bar>"
proof -
  define k where "k = \<lfloor>log 2 \<bar>x\<bar>\<rfloor>"
  have ax: "0 < \<bar>x\<bar>" using assms by simp
  have e: "quantum_exp x = k - 52" using assms(2) by (simp add: quantum_exp_def k_def max_def split: if_splits)
  have "of_int k \<le> log 2 \<bar>x\<bar>" unfolding k_def by linarith
  then have "2 powr (of_int k) \<le> 2 powr (log 2 \<bar>x\<bar>)" by (simp add: powr_mono)
  then have a: "2 powr (of_int k) \<le> \<bar>x\<bar>" using ax by simp
  have "(2::real) powr (of_int k) = 2 powr (52 + (of_int k - 52))" by simp
  also have "\<dots> = 2 powr 52 * 2 powr (of_int k - 52)" by (rule powr_add)
  also have "\<dots> = 2 ^ 52 * 2 powr of_int (quantum_exp x)" by (simp add: e)
  finally show ?thesis using a by simp
qed

lemma representable_binary64: "representable (binary64 x)"
proof (cases "x = 0")
  case True
  have "\<bar>0::int\<bar> \<le> 2 ^ 53 \<and> (- 1074::int) \<le> 0 \<and> (0::real) = of_int 0 * 2 powr of_int 0" by simp
  then show ?thesis unfolding representable_def binary64_def using True by auto
next
  case False
  define e where "e = quantum_exp x"
  define q where "q = (2::real) powr of_int e"
  have q: "0 < q" by (simp add: q_def)
  have "\<bar>x\<bar> < 2 ^ 53 * q" using quantum_upper[OF False] by (simp add: q_def e_def)
  then have "\<bar>x / q\<bar> < 2 ^ 53" using q by (simp add: pos_divide_less_eq)
  then have "\<bar>round_half_even (x / q)\<bar> \<le> 2 ^ 53" by (rule rhe_bound)
  moreover have "- 1074 \<le> e" by (simp add: e_def quantum_exp_def)
  moreover have "binary64 x = of_int (round_half_even (x / q)) * 2 powr of_int e"
    using False by (simp add: binary64_def q_def e_def)
  ultimately show ?thesis unfolding representable_def by blast
qed

lemma pow2_multiple:
  assumes "e \<le> e'"
  shows "(2::real) powr of_int e' = of_int (2 ^ nat (e' - e)) * 2 powr of_int e"
proof -
  have "(2::real) powr of_int e' = 2 powr (of_int (e' - e) + of_int e)" by simp
  also have "\<dots> = 2 powr of_int (e' - e) * 2 powr of_int e" by (rule powr_add)
  also have "(2::real) powr of_int (e' - e) = 2 powr real (nat (e' - e))"
    using assms by simp
  also have "\<dots> = 2 ^ nat (e' - e)" by (simp add: powr_realpow)
  finally show ?thesis by simp
qed

lemma abs_scale:
  assumes "0 < (q::real)"
  shows "\<bar>a - x / q\<bar> * q = \<bar>a * q - x\<bar>"
proof -
  have "\<bar>a - x / q\<bar> * q = \<bar>a - x / q\<bar> * \<bar>q\<bar>" using assms by simp
  also have "\<dots> = \<bar>(a - x / q) * q\<bar>" by (rule abs_mult[symmetric])
  also have "(a - x / q) * q = a * q - x" using assms by (simp add: field_simps)
  finally show ?thesis .
qed

lemma grid_nearest:
  assumes "x \<noteq> 0"
  shows "\<bar>binary64 x - x\<bar> \<le> \<bar>of_int k * 2 powr of_int (quantum_exp x) - x\<bar>"
proof -
  define q where "q = (2::real) powr of_int (quantum_exp x)"
  have q: "0 < q" by (simp add: q_def)
  define r where "r = round_half_even (x / q)"
  have b: "binary64 x = of_int r * q" using assms by (simp add: binary64_def q_def r_def)
  have "\<bar>of_int r - x / q\<bar> \<le> \<bar>of_int k - x / q\<bar>" unfolding r_def by (rule rhe_nearest)
  then have "\<bar>of_int r - x / q\<bar> * q \<le> \<bar>of_int k - x / q\<bar> * q"
    using q by (simp add: mult_right_mono)
  then have "\<bar>of_int r * q - x\<bar> \<le> \<bar>of_int k * q - x\<bar>"
    by (simp only: abs_scale[OF q])
  then show ?thesis by (simp only: b q_def)
qed


lemma binary64_nearest:
  assumes "representable f"
  shows "\<bar>binary64 x - x\<bar> \<le> \<bar>f - x\<bar>"
proof (cases "x = 0")
  case True
  then show ?thesis by (simp add: binary64_def)
next
  case False
  from assms obtain m e' where m: "\<bar>m\<bar> \<le> (2::int) ^ 53" and e': "(- 1074::int) \<le> e'"
    and f: "f = of_int m * 2 powr of_int e'"
    unfolding representable_def by blast
  define e where "e = quantum_exp x"
  define q where "q = (2::real) powr of_int e"
  have q: "0 < q" by (simp add: q_def)
  note grid = grid_nearest[OF False, folded e_def, folded q_def]
  show ?thesis
  proof (cases "e \<le> e'")
    case True
    have "f = of_int (m * 2 ^ nat (e' - e)) * q"
      unfolding f q_def pow2_multiple[OF True] by simp
    then show ?thesis using grid[of "m * 2 ^ nat (e' - e)"] by simp
  next
    case False
    then have lt: "e' \<le> e - 1" by simp
    then have "- 1074 < quantum_exp x" using e' by (simp add: e_def)
    from quantum_lower[OF \<open>x \<noteq> 0\<close> this] have B: "2 ^ 52 * q \<le> \<bar>x\<bar>"
      by (simp add: q_def e_def)
    have "(2::real) powr of_int e' \<le> 2 powr of_int (e - 1)"
      using lt by (simp add: powr_mono)
    also have "\<dots> = q / 2" by (simp add: q_def powr_diff)
    finally have p: "(2::real) powr of_int e' \<le> q / 2" .
    have "\<bar>f\<bar> = \<bar>of_int m\<bar> * 2 powr of_int e'" by (simp add: f abs_mult)
    also have "\<dots> \<le> 2 ^ 53 * 2 powr of_int e'"
    proof -
      have "\<bar>of_int m :: real\<bar> \<le> of_int (2 ^ 53)" using m by (metis of_int_abs of_int_le_iff)
      then show ?thesis by (simp add: mult_right_mono)
    qed
    also have "\<dots> \<le> 2 ^ 53 * (q / 2)" using p by (simp add: mult_left_mono)
    also have "\<dots> = 2 ^ 52 * q" by simp
    finally have fB: "\<bar>f\<bar> \<le> 2 ^ 52 * q" .
    show ?thesis
    proof (cases "0 < x")
      case True
      have "\<bar>binary64 x - x\<bar> \<le> \<bar>of_int (2 ^ 52) * q - x\<bar>" by (rule grid)
      also have "\<dots> = x - 2 ^ 52 * q" using B True by simp
      also have "\<dots> \<le> \<bar>f - x\<bar>" using fB by linarith
      finally show ?thesis .
    next
      case False
      then have neg: "x < 0" using \<open>x \<noteq> 0\<close> by simp
      have "\<bar>binary64 x - x\<bar> \<le> \<bar>of_int (- (2 ^ 52)) * q - x\<bar>" by (rule grid)
      also have "\<dots> = - x - 2 ^ 52 * q" using B neg by simp
      also have "\<dots> \<le> \<bar>f - x\<bar>" using fB by linarith
      finally show ?thesis .
    qed
  qed
qed

lemma binary64_exact: "representable y \<Longrightarrow> binary64 y = y"
  using binary64_nearest[of y y] by simp

lemma representable_double:
  assumes "representable a"
  shows "representable (2 * a)"
proof -
  from assms obtain m e where m: "\<bar>m\<bar> \<le> (2::int) ^ 53" "(- 1074::int) \<le> e"
    "a = of_int m * 2 powr of_int e"
    unfolding representable_def by blast
  have "(2::real) powr of_int (e + 1) = 2 powr of_int e * 2" by (simp add: powr_add)
  then have "2 * a = of_int m * 2 powr of_int (e + 1)" using m(3) by simp
  moreover have "- 1074 \<le> e + 1" using m(2) by simp
  ultimately show ?thesis unfolding representable_def using m(1) by blast
qed

lemma representable_int:
  assumes "\<bar>n\<bar> \<le> (2::int) ^ 53"
  shows "representable (of_int n)"
proof -
  have "(of_int n :: real) = of_int n * 2 powr of_int 0" by simp
  then show ?thesis unfolding representable_def using assms by (metis neg_le_0_iff_le zero_le_numeral)
qed

lemma midpoint_between:
  assumes "representable a" "representable b" "a \<le> b"
  shows "a \<le> midpoint a b \<and> midpoint a b \<le> b \<and> representable (midpoint a b)"
proof -
  define s where "s = binary64 (a + b)"
  have "\<bar>s - (a + b)\<bar> \<le> \<bar>2 * a - (a + b)\<bar>"
    unfolding s_def using binary64_nearest[OF representable_double[OF assms(1)]] .
  then have s: "2 * a \<le> s" "s \<le> 2 * b" using assms(3) by linarith+
  have "\<bar>midpoint a b - s / 2\<bar> \<le> \<bar>a - s / 2\<bar>"
    unfolding midpoint_def s_def[symmetric] using binary64_nearest[OF assms(1)] .
  then have lo: "a \<le> midpoint a b" using s(1) by linarith
  have "\<bar>midpoint a b - s / 2\<bar> \<le> \<bar>b - s / 2\<bar>"
    unfolding midpoint_def s_def[symmetric] using binary64_nearest[OF assms(2)] .
  then have hi: "midpoint a b \<le> b" using s(2) by linarith
  show ?thesis using lo hi representable_binary64 by (simp add: midpoint_def)
qed

lemma midpoint_int:
  assumes "\<bar>a + b\<bar> \<le> (2::int) ^ 53" "even (a + b)"
  shows "midpoint (of_int a) (of_int b) = of_int ((a + b) div 2)"
proof -
  have s: "binary64 (of_int a + of_int b) = of_int (a + b)"
    using binary64_exact[OF representable_int[OF assms(1)]] by simp
  have h: "(of_int (a + b) :: real) / 2 = of_int ((a + b) div 2)"
    using assms(2) by (metis real_of_int_div of_int_numeral)
  have "\<bar>(a + b) div 2\<bar> \<le> (2::int) ^ 53" using assms(1) by linarith
  from binary64_exact[OF representable_int[OF this]] show ?thesis
    unfolding midpoint_def s h .
qed

section \<open>Bounds\<close>

lemma proper_bounds_bit: "proper st \<Longrightarrow> proper (bounds_bit b st)"
  using midpoint_between[of "lat_min st" "lat_max st"] midpoint_between[of "lon_min st" "lon_max st"]
  by (simp add: proper_def bounds_bit_def Let_def)

lemma proper_fold: "proper st \<Longrightarrow> proper (fold (\<lambda>nn. bounds_bit (f nn)) ns st)"
  by (induction ns arbitrary: st) (simp_all add: proper_bounds_bit)

lemma bounds_char_bad: "c \<notin> set base32 \<Longrightarrow> bounds_char c st = Inl KeyError"
  by (simp add: bounds_char_def decodemap_None)

lemma bounds_char_ok:
  assumes "c \<in> set base32"
  shows "\<exists>st'. bounds_char c st = Inr st' \<and> (proper st \<longrightarrow> proper st')"
proof -
  from decodemap_mem[OF assms] obtain j where j: "decodemap c = Some j" "0 \<le> j" by blast
  then have "bounds_char c st = Inr (fold (\<lambda>nn. bounds_bit (and (drop_bit nn j) 1)) [4, 3, 2, 1, 0] st)"
    by (simp add: bounds_char_def)
  then show ?thesis using proper_fold[of st "\<lambda>nn. and (drop_bit nn j) 1" "[4, 3, 2, 1, 0]"] by simp
qed

lemma bounds_loop_bad:
  "\<not> set s \<subseteq> set base32 \<Longrightarrow> bounds_loop s st = Inl KeyError"
proof (induction s arbitrary: st)
  case Nil
  then show ?case by simp
next
  case (Cons x xs)
  show ?case
  proof (cases "x \<in> set base32")
    case True
    from bounds_char_ok[OF True] obtain st' where "bounds_char x st = Inr st'" by blast
    moreover have "\<not> set xs \<subseteq> set base32" using Cons.prems True by simp
    ultimately show ?thesis using Cons.IH by simp
  next
    case False
    then show ?thesis by (simp add: bounds_char_bad)
  qed
qed

lemma bounds_loop_ok:
  "set s \<subseteq> set base32 \<Longrightarrow> proper st \<Longrightarrow> \<exists>st'. bounds_loop s st = Inr st' \<and> proper st'"
proof (induction s arbitrary: st)
  case Nil
  then show ?case by simp
next
  case (Cons x xs)
  from Cons.prems(1) have x: "x \<in> set base32" and xs: "set xs \<subseteq> set base32" by simp_all
  from bounds_char_ok[OF x, of st] Cons.prems(2) obtain st1 where
    st1: "bounds_char x st = Inr st1" "proper st1" by blast
  from Cons.IH[OF xs st1(2)] st1(1) show ?case by simp
qed

lemma proper_init: "proper init_bstate"
  using representable_int[of "-90"] representable_int[of 90]
    representable_int[of "-180"] representable_int[of 180]
  by (simp add: proper_def init_bstate_def)

lemma set_lower: "set (lower s) \<subseteq> set base32 \<longleftrightarrow> (\<forall>c\<in>set s. lower_char c \<in> set base32)"
  by (auto simp: lower_def)

lemma geohash_bounds_bad:
  assumes "c \<in> set h" "lower_char c \<notin> set base32"
  shows "geohash_bounds h = Inl KeyError"
proof -
  have "h \<noteq> []" using assms(1) by auto
  moreover have "\<not> set (lower h) \<subseteq> set base32" using assms set_lower by blast
  ultimately show ?thesis by (simp add: geohash_bounds_def bounds_loop_bad)
qed

lemma geohash_bounds_ok:
  assumes "h \<noteq> []" "set (lower h) \<subseteq> set base32"
  shows "\<exists>b. geohash_bounds h = Inr b \<and> lat (sw b) \<le> lat (ne b) \<and> lon (sw b) \<le> lon (ne b)"
proof -
  from bounds_loop_ok[OF assms(2) proper_init] obtain st where
    "bounds_loop (lower h) init_bstate = Inr st" "proper st" by blast
  then show ?thesis using assms(1) by (simp add: geohash_bounds_def proper_def)
qed

text \<open>
  C8.  For every non-empty geohash \<open>h\<close> over the alphabet, \<open>geohash_bounds h\<close> returns
  a box whose south-west corner is not above or to the right of its north-east corner:
  \<open>sw.lat \<le> ne.lat\<close> and \<open>sw.lon \<le> ne.lon\<close>.
\<close>

theorem C8_bounds_ordered:
  assumes "h \<noteq> []" "set h \<subseteq> set base32"
  shows "\<exists>b. geohash_bounds h = Inr b \<and> lat (sw b) \<le> lat (ne b) \<and> lon (sw b) \<le> lon (ne b)"
proof -
  have "set (lower h) \<subseteq> set base32" using lower_fixed[OF assms(2)] assms(2) by simp
  from geohash_bounds_ok[OF assms(1) this] show ?thesis by force
qed

theorem C8_bounds_ordered_witness:
  "\<exists>b. geohash_bounds ''sr2yk'' = Inr b \<and> lat (sw b) \<le> lat (ne b) \<and> lon (sw b) \<le> lon (ne b)"
  using C8_bounds_ordered[of "''sr2yk''"] by (simp add: base32_def)



lemma length_upper [simp]: "length (upper s) = length s"
  by (simp add: upper_def)





lemma lower_dirs: "lower d \<in> set dirs \<Longrightarrow> length d = 1 \<and> str_in (lower d) ''nsew''"
  using dirs_length[of "lower d"] dirs_str_in[of "lower d"] by simp

text \<open>
  C1 (the code departs from the claim).  The character \<open>p\<close> is in the border entry for
  north and an even length, at index 0, and the parent \<open>s\<close> is not empty; the code
  keeps the parent where the claim moves it to \<open>geohash_adjacent ''s'' ''n''\<close>, which
  is \<open>u\<close>.
\<close>

theorem C1_first_border_character:
  "border_index ''n'' (length ''sp'' mod 2) (last ''sp'') = Inr 0 \<and>
   geohash_adjacent ''s'' ''n'' = Inr ''u'' \<and>
   geohash_adjacent ''sp'' ''n'' = Inr ''s0''"
  by code_simp

text \<open>
  C5 as the claim states it fails: \<open>a\<close> is outside the alphabet, and the adjacency
  operation returns a normal result on \<open>a0\<close>; \<open>B\<close> is outside the alphabet, and
  the bounds operation returns a box on \<open>B\<close>.
\<close>

theorem C5_counterexample:
  "CHR ''a'' \<in> set ''a0'' \<and> CHR ''a'' \<notin> set base32 \<and>
   geohash_adjacent ''a0'' ''n'' = Inr ''a1'' \<and>
   CHR ''B'' \<in> set ''B'' \<and> CHR ''B'' \<notin> set base32 \<and>
   geohash_bounds ''B'' =
     Inr \<lparr>sw = \<lparr>lat = 45, lon = -180\<rparr>, ne = \<lparr>lat = 90, lon = -135\<rparr>\<rparr>"
proof -
  have m: "midpoint (- 180) 180 = 0" "midpoint (- 90) 90 = 0" "midpoint (- 180) 0 = - 90"
    "midpoint 0 90 = 45" "midpoint (- 180) (- 90) = - 135"
    using midpoint_int[of "- 180" 180] midpoint_int[of "- 90" 90] midpoint_int[of "- 180" 0]
      midpoint_int[of 0 90] midpoint_int[of "- 180" "- 90"]
    by simp_all
  have d: "decodemap (CHR ''b'') = Some 10"
    using decodemap_nth[of 10] by (simp add: base32_def)
  have b: "geohash_bounds ''B'' =
     Inr \<lparr>sw = \<lparr>lat = 45, lon = -180\<rparr>, ne = \<lparr>lat = 90, lon = -135\<rparr>\<rparr>"
  proof -
    have l: "lower ''B'' = ''b''" by code_simp
    show ?thesis
      by (simp add: geohash_bounds_def l bounds_char_def d bounds_bit_def init_bstate_def m
          Let_def drop_bit_eq_div)
  qed
  have a: "geohash_adjacent ''a0'' ''n'' = Inr ''a1''" by code_simp
  show ?thesis using a b by (simp add: base32_def)
qed

text \<open>
  C5, amended.  If a string contains a symbol whose lower-case form is outside the
  alphabet, wherever it occurs, then \<open>geohash_bounds\<close> and \<open>geohash_decode\<close> fail
  with \<open>KeyError\<close>.  With a valid direction, \<open>geohash_adjacent\<close> fails with
  \<open>ValueError\<close> when the lower-case form of the last symbol is outside the alphabet,
  and returns a normal result otherwise: it does not look at the other symbols.
\<close>

theorem C5_invalid_character:
  assumes "c \<in> set h" "lower_char c \<notin> set base32" "lower d \<in> set dirs"
  shows "geohash_bounds h = Inl KeyError \<and> geohash_decode h = Inl KeyError \<and>
         (lower_char (last h) \<notin> set base32 \<longrightarrow> geohash_adjacent h d = Inl ValueError) \<and>
         (lower_char (last h) \<in> set base32 \<longrightarrow> (\<exists>r. geohash_adjacent h d = Inr r))"
proof -
  have ne: "h \<noteq> []" using assms(1) by auto
  have b: "geohash_bounds h = Inl KeyError" using geohash_bounds_bad[OF assms(1,2)] .
  then have dc: "geohash_decode h = Inl KeyError" by (simp add: geohash_decode_def)
  have d: "length d = 1" "str_in (lower d) ''nsew''"
    using lower_dirs[OF assms(3)] by blast+
  have f: "lower_char (last h) \<notin> set base32 \<Longrightarrow> geohash_adjacent h d = Inl ValueError"
    using adjacent_fail[OF ne d] .
  have s: "lower_char (last h) \<in> set base32 \<Longrightarrow> \<exists>r. geohash_adjacent h d = Inr r"
    using adjacent_ok[OF ne d] by blast
  show ?thesis using b dc f s by blast
qed

theorem C5_invalid_character_witness:
  "geohash_bounds ''a0'' = Inl KeyError \<and> geohash_decode ''a0'' = Inl KeyError \<and>
   (\<exists>r. geohash_adjacent ''a0'' ''n'' = Inr r) \<and>
   geohash_adjacent ''0a'' ''n'' = Inl ValueError"
  using C5_invalid_character[of "CHR ''a''" "''a0''" "''n''"]
    C5_invalid_character[of "CHR ''a''" "''0a''" "''n''"]
  by (simp add: base32_def lower_def lower_char_def dirs_def)



lemma bits_of_0 [simp]: "bits_of 0 i = []"
  by (simp add: bits_of_def)

lemma bits_of_Suc:
  assumes "b = 0 \<or> b = 1"
  shows "bits_of (Suc n) (2 * i + b) = bits_of n i @ [b]"
proof -
  have "[0..<Suc n] = 0 # map Suc [0..<n]"
    by (simp add: upt_conv_Cons map_Suc_upt del: upt_Suc)
  then have "rev [0..<Suc n] = map Suc (rev [0..<n]) @ [0]"
    by (simp add: rev_map del: upt_Suc)
  moreover have "\<And>k. and (drop_bit (Suc k) (2 * i + b)) 1 = and (drop_bit k i) (1::int)"
    using assms by (auto simp: drop_bit_Suc)
  moreover have "and (drop_bit 0 (2 * i + b)) 1 = b"
    using assms by (auto simp: and_one_eq)
  ultimately show ?thesis
    unfolding bits_of_def by (simp del: upt_Suc add: comp_def)
qed

lemma bounds_char_bits:
  assumes "i < 32"
  shows "bounds_char (base32 ! i) st = Inr (fold bounds_bit (bits_of 5 (int i)) st)"
proof -
  have "rev [0..<5] = [4, 3, 2, 1, 0::nat]" by (simp add: upt_rec)
  then have "fold bounds_bit (bits_of 5 (int i)) st =
        fold (\<lambda>nn. bounds_bit (and (drop_bit nn (int i)) 1)) [4, 3, 2, 1, 0] st"
    unfolding bits_of_def by (simp add: fold_map comp_def)
  then show ?thesis using decodemap_nth[OF assms] by (simp add: bounds_char_def)
qed

lemma bounds_loop_append:
  "bounds_loop (xs @ ys) st =
     (case bounds_loop xs st of Inl e \<Rightarrow> Inl e | Inr st' \<Rightarrow> bounds_loop ys st')"
  by (induction xs arbitrary: st) (simp_all split: sum.splits)

lemma encode_body_bisect:
  "encode_body la lo s =
     (if bitn (bisect la lo s) = 5 then
        (case str_get base32 (idx (bisect la lo s)) of
           Inl e \<Rightarrow> Inl e
         | Inr ch \<Rightarrow>
             Inr ((bisect la lo s)\<lparr>geohash := geohash (bisect la lo s) @ [ch], bitn := 0, idx := 0\<rparr>))
      else Inr (bisect la lo s))"
  unfolding encode_body_def bisect_def Let_def by (rule refl)

lemma bisect_fields:
  "bitn (bisect la lo s) = Suc (bitn s)"
  "geohash (bisect la lo s) = geohash s"
  "idx (bisect la lo s) = 2 * idx s + next_bit la lo s"
  by (simp_all add: bisect_def next_bit_def Let_def)

lemma next_bit_01: "next_bit la lo s = 0 \<or> next_bit la lo s = 1"
  by (simp add: next_bit_def)

lemma bisect_box:
  "same_box s X \<Longrightarrow> same_box (bisect la lo s) (bounds_bit (next_bit la lo s) X)"
  by (simp add: bisect_def next_bit_def bounds_bit_def same_box_def Let_def)

lemma bisect_contains:
  "lat_min s \<le> la \<and> la \<le> lat_max s \<and> lon_min s \<le> lo \<and> lo \<le> lon_max s \<Longrightarrow>
   lat_min (bisect la lo s) \<le> la \<and> la \<le> lat_max (bisect la lo s) \<and>
   lon_min (bisect la lo s) \<le> lo \<and> lo \<le> lon_max (bisect la lo s)"
  by (simp add: bisect_def Let_def)

lemma str_get_base32: "0 \<le> i \<Longrightarrow> i < 32 \<Longrightarrow> str_get base32 i = Inr (base32 ! nat i)"
  by (simp add: str_get_def length_base32)

lemma encode_body_step:
  assumes "einv la lo s"
  shows "\<exists>s'. encode_body la lo s = Inr s' \<and> einv la lo s' \<and>
     ((bitn s < 4 \<and> bitn s' = Suc (bitn s) \<and> geohash s' = geohash s) \<or>
      (bitn s = 4 \<and> bitn s' = 0 \<and> length (geohash s') = Suc (length (geohash s))))"
proof -
  define b where "b = next_bit la lo s"
  define s3 where "s3 = bisect la lo s"
  have b01: "b = 0 \<or> b = 1" using next_bit_01 by (simp add: b_def)
  from assms obtain st where st: "bounds_loop (geohash s) init_bstate = Inr st"
    and box: "same_box s (fold bounds_bit (bits_of (bitn s) (idx s)) st)"
    by (auto simp: einv_def split: sum.splits)
  from assms have n: "bitn s < 5" and i0: "0 \<le> idx s" and i1: "idx s < 2 ^ bitn s"
    and alph: "set (geohash s) \<subseteq> set base32"
    and cont: "lat_min s \<le> la \<and> la \<le> lat_max s \<and> lon_min s \<le> lo \<and> lo \<le> lon_max s"
    by (simp_all add: einv_def)
  have f3: "bitn s3 = Suc (bitn s)" "geohash s3 = geohash s" "idx s3 = 2 * idx s + b"
    by (simp_all add: s3_def b_def bisect_fields)
  have i3: "0 \<le> idx s3" "idx s3 < 2 ^ bitn s3"
    using i0 i1 b01 f3 by auto
  have box3: "same_box s3 (fold bounds_bit (bits_of (bitn s3) (idx s3)) st)"
    unfolding f3 bits_of_Suc[OF b01]
    using bisect_box[OF box, of la lo] by (simp add: s3_def b_def)
  have cont3: "lat_min s3 \<le> la \<and> la \<le> lat_max s3 \<and> lon_min s3 \<le> lo \<and> lo \<le> lon_max s3"
    using bisect_contains[OF cont] by (simp add: s3_def)
  show ?thesis
  proof (cases "bitn s = 4")
    case False
    then have lt: "bitn s < 4" using n by simp
    then have "encode_body la lo s = Inr s3"
      by (simp add: encode_body_bisect bisect_fields s3_def)
    moreover have "einv la lo s3"
      using lt f3 i3 alph st box3 cont3 by (simp add: einv_def)
    ultimately show ?thesis using lt f3 by simp
  next
    case True
    then have five: "bitn s3 = 5" using f3 by simp
    have i32: "idx s3 < 32" using i3(2) five by simp
    define k where "k = nat (idx s3)"
    have k: "k < 32" "int k = idx s3" using i3(1) i32 by (simp_all add: k_def)
    define ch where "ch = base32 ! k"
    have chm: "ch \<in> set base32" using k(1) length_base32 by (simp add: ch_def)
    define s' where "s' = s3\<lparr>geohash := geohash s3 @ [ch], bitn := 0, idx := 0\<rparr>"
    have body: "encode_body la lo s = Inr s'"
      using five str_get_base32[OF i3(1) i32]
      by (simp add: encode_body_bisect s3_def[symmetric] s'_def ch_def k_def)
    have loop': "bounds_loop (geohash s') init_bstate = Inr (fold bounds_bit (bits_of 5 (idx s3)) st)"
      using st bounds_char_bits[OF k(1), of st] k(2)
      by (simp add: s'_def f3(2) bounds_loop_append ch_def)
    have box': "same_box s' (fold bounds_bit (bits_of 5 (idx s3)) st)"
      using box3 five by (simp add: s'_def same_box_def)
    have "einv la lo s'"
      unfolding einv_def loop'
      using box' cont3 alph chm f3(2) by (simp add: s'_def)
    then show ?thesis using body True f3(2) by (auto simp: s'_def)
  qed
qed

lemma encode_loop_terminates:
  assumes "einv la lo s" "int (length (geohash s)) \<le> p"
    "int (length (geohash s)) < p \<or> bitn s = 0"
  shows "\<exists>s'. encode_loop la lo p s = Some (Inr s') \<and> einv la lo s' \<and>
              int (length (geohash s')) = p \<and> bitn s' = 0"
  using assms
proof (induction "5 * nat (p - int (length (geohash s))) - bitn s" arbitrary: s rule: less_induct)
  case less
  show ?case
  proof (cases "int (length (geohash s)) < p")
    case False
    then have "encode_loop la lo p s = Some (Inr s)"
      by (subst encode_loop.simps) simp
    then show ?thesis using False less.prems by auto
  next
    case True
    from encode_body_step[OF less.prems(1)] obtain s' where
      s': "encode_body la lo s = Inr s'" "einv la lo s'"
        "(bitn s < 4 \<and> bitn s' = Suc (bitn s) \<and> geohash s' = geohash s) \<or>
         (bitn s = 4 \<and> bitn s' = 0 \<and> length (geohash s') = Suc (length (geohash s)))"
      by blast
    have unf: "encode_loop la lo p s = encode_loop la lo p s'"
      using True s'(1) by (subst encode_loop.simps) simp
    have m: "5 * nat (p - int (length (geohash s'))) - bitn s' <
             5 * nat (p - int (length (geohash s))) - bitn s"
      using s'(3) True by auto
    have le: "int (length (geohash s')) \<le> p" using s'(3) True by auto
    have dj: "int (length (geohash s')) < p \<or> bitn s' = 0" using s'(3) True by auto
    from less.hyps[OF m s'(2) le dj] unf show ?thesis by simp
  qed
qed

lemma einv_init:
  assumes "-90 \<le> la" "la \<le> 90" "-180 \<le> lo" "lo \<le> 180"
  shows "einv la lo init_estate"
  using assms by (simp add: einv_def init_estate_def init_bstate_def same_box_def)

lemma encode_main:
  assumes "-90 \<le> la" "la \<le> 90" "-180 \<le> lo" "lo \<le> 180" "1 \<le> p"
  shows "\<exists>s b. geohash_encode \<lparr>lat = Some la, lon = Some lo\<rparr> (Some p) = Some (Inr s) \<and>
           int (length s) = p \<and> set s \<subseteq> set base32 \<and> geohash_bounds s = Inr b \<and>
           lat (sw b) \<le> la \<and> la \<le> lat (ne b) \<and> lon (sw b) \<le> lo \<and> lo \<le> lon (ne b)"
proof -
  have "int (length (geohash init_estate)) \<le> p" "int (length (geohash init_estate)) < p \<or> bitn init_estate = 0"
    using assms(5) by (simp_all add: init_estate_def)
  from encode_loop_terminates[OF einv_init[OF assms(1-4)] this] obtain s' where
    s': "encode_loop la lo p init_estate = Some (Inr s')" "einv la lo s'"
        "int (length (geohash s')) = p" "bitn s' = 0" by blast
  have enc: "geohash_encode \<lparr>lat = Some la, lon = Some lo\<rparr> (Some p) = Some (Inr (geohash s'))"
    using assms(1-4) s'(1) by (simp add: geohash_encode_def)
  have alph: "set (geohash s') \<subseteq> set base32" using s'(2) by (simp add: einv_def)
  have ne: "geohash s' \<noteq> []" using s'(3) assms(5) by auto
  from s'(2) obtain st where st: "bounds_loop (geohash s') init_bstate = Inr st"
    and box: "same_box s' (fold bounds_bit (bits_of (bitn s') (idx s')) st)"
    by (auto simp: einv_def split: sum.splits)
  have box': "same_box s' st" using box s'(4) by simp
  have cont: "lat_min s' \<le> la \<and> la \<le> lat_max s' \<and> lon_min s' \<le> lo \<and> lo \<le> lon_max s'"
    using s'(2) by (simp add: einv_def)
  have "geohash_bounds (geohash s') =
          Inr \<lparr>sw = \<lparr>lat = lat_min st, lon = lon_min st\<rparr>,
               ne = \<lparr>lat = lat_max st, lon = lon_max st\<rparr>\<rparr>"
    using ne st lower_fixed[OF alph] by (simp add: geohash_bounds_def)
  then show ?thesis using enc s'(3) alph cont box' by (simp add: same_box_def)
qed

text \<open>
  C4 as the claim states it fails: with a coordinate in range and the precision 0, which
  is below 1, \<open>geohash_encode\<close> returns the empty string.
\<close>

theorem C4_counterexample:
  "(0::int) < 1 \<and> geohash_encode \<lparr>lat = Some 0, lon = Some 0\<rparr> (Some 0) = Some (Inr [])"
proof -
  have g: "geohash init_estate = []" by (simp add: init_estate_def)
  have "encode_loop 0 0 0 init_estate = Some (Inr init_estate)"
    by (subst encode_loop.simps) (simp add: g)
  then show ?thesis by (simp add: geohash_encode_def g)
qed

text \<open>
  C4, amended.  \<open>geohash_encode\<close> fails with \<open>ValueError\<close> whenever the latitude is
  outside \<open>[-90, 90]\<close> or the longitude is outside \<open>[-180, 180]\<close>, whatever the
  precision.  A precision below 1 is not rejected: with a coordinate in range the
  result is the empty string.
\<close>

theorem C4_encode_validation:
  "(la < -90 \<or> la > 90 \<or> lo < -180 \<or> lo > 180 \<longrightarrow>
      geohash_encode \<lparr>lat = Some la, lon = Some lo\<rparr> p = Some (Inl ValueError)) \<and>
   (-90 \<le> la \<and> la \<le> 90 \<and> -180 \<le> lo \<and> lo \<le> 180 \<and> n < 1 \<longrightarrow>
      geohash_encode \<lparr>lat = Some la, lon = Some lo\<rparr> (Some n) = Some (Inr []))"
proof -
  have g: "geohash init_estate = []" by (simp add: init_estate_def)
  have "n < 1 \<Longrightarrow> encode_loop la lo n init_estate = Some (Inr init_estate)"
    by (subst encode_loop.simps) (simp add: g)
  then show ?thesis
    by (auto simp: geohash_encode_def g)
qed

theorem C4_encode_validation_witness:
  "geohash_encode \<lparr>lat = Some 100, lon = Some 0\<rparr> (Some 5) = Some (Inl ValueError) \<and>
   geohash_encode \<lparr>lat = Some 0, lon = Some 200\<rparr> None = Some (Inl ValueError) \<and>
   geohash_encode \<lparr>lat = Some 10, lon = Some 20\<rparr> (Some (-3)) = Some (Inr [])"
  using C4_encode_validation[of 100 0 "Some 5" 0] C4_encode_validation[of 0 200 None 0]
    C4_encode_validation[of 10 20 None "-3"]
  by simp

text \<open>
  C7.  For every latitude in \<open>[-90, 90]\<close>, longitude in \<open>[-180, 180]\<close> and precision
  \<open>p \<ge> 1\<close>, \<open>geohash_encode\<close> returns a string of length exactly \<open>p\<close> all of whose
  characters are in the alphabet.
\<close>

theorem C7_encode_length_alphabet:
  assumes "-90 \<le> la" "la \<le> 90" "-180 \<le> lo" "lo \<le> 180" "1 \<le> p"
  shows "\<exists>s. geohash_encode \<lparr>lat = Some la, lon = Some lo\<rparr> (Some p) = Some (Inr s) \<and>
             int (length s) = p \<and> set s \<subseteq> set base32"
  using encode_main[OF assms] by blast

theorem C7_encode_length_alphabet_witness:
  "\<exists>s. geohash_encode \<lparr>lat = Some (41890251 / 1000000), lon = Some (12492373 / 1000000)\<rparr> (Some 5) =
          Some (Inr s) \<and> int (length s) = 5 \<and> set s \<subseteq> set base32"
  using C7_encode_length_alphabet[of "41890251 / 1000000" "12492373 / 1000000" 5] by simp

text \<open>
  C6.  For every latitude in \<open>[-90, 90]\<close>, longitude in \<open>[-180, 180]\<close> and precision
  \<open>p \<ge> 1\<close>, the box that \<open>geohash_bounds\<close> returns for the encoded geohash contains
  the coordinate: \<open>sw.lat \<le> lat \<le> ne.lat\<close> and \<open>sw.lon \<le> lon \<le> ne.lon\<close>.
\<close>

theorem C6_round_trip:
  assumes "-90 \<le> la" "la \<le> 90" "-180 \<le> lo" "lo \<le> 180" "1 \<le> p"
  shows "\<exists>s b. geohash_encode \<lparr>lat = Some la, lon = Some lo\<rparr> (Some p) = Some (Inr s) \<and>
           geohash_bounds s = Inr b \<and>
           lat (sw b) \<le> la \<and> la \<le> lat (ne b) \<and> lon (sw b) \<le> lo \<and> lo \<le> lon (ne b)"
  using encode_main[OF assms] by blast

theorem C6_round_trip_witness:
  "\<exists>s b. geohash_encode \<lparr>lat = Some 90, lon = Some (-180)\<rparr> (Some 3) = Some (Inr s) \<and>
      geohash_bounds s = Inr b \<and>
      lat (sw b) \<le> 90 \<and> 90 \<le> lat (ne b) \<and> lon (sw b) \<le> -180 \<and> -180 \<le> lon (ne b)"
  using C6_round_trip[of 90 "-180" 3] by simp

section \<open>The scenarios of the repository's tests\<close>

text \<open>
  On the inputs of the tests every sum and every midpoint is a binary64 number, so that
  no rounding takes place.
\<close>

lemma representable_dyadic:
  assumes "\<bar>m\<bar> \<le> (2::int) ^ 53" "k \<le> 1074"
  shows "representable (of_int m / 2 ^ k)"
proof -
  have "(2::real) powr of_int (- int k) = 1 / 2 ^ k"
    by (simp add: powr_minus powr_realpow inverse_eq_divide)
  then have "(of_int m :: real) / 2 ^ k = of_int m * 2 powr of_int (- int k)" by simp
  moreover have "- 1074 \<le> - int k" using assms(2) by simp
  ultimately show ?thesis unfolding representable_def using assms(1) by blast
qed

lemma midpoint_exact:
  assumes "of_int \<lfloor>(a + b) * 2 ^ 20\<rfloor> = (a + b) * 2 ^ 20" "\<bar>a + b\<bar> \<le> 2 ^ 30"
  shows "midpoint a b = (a + b) / 2"
proof -
  define c where "c = a + b"
  define M where "M = \<lfloor>c * 2 ^ 20\<rfloor>"
  have eqM: "(of_int M :: real) = c * 2 ^ 20" unfolding M_def c_def by (rule assms(1))
  have ab: "c = of_int M / 2 ^ 20" unfolding eqM by simp
  have "\<bar>of_int M :: real\<bar> = \<bar>c\<bar> * 2 ^ 20" unfolding eqM by (simp add: abs_mult)
  also have "\<dots> \<le> 2 ^ 30 * 2 ^ 20" using assms(2) unfolding c_def[symmetric] by (simp add: mult_right_mono)
  finally have "(of_int \<bar>M\<bar> :: real) \<le> of_int (2 ^ 50)" by simp
  then have "\<bar>M\<bar> \<le> 2 ^ 50" by (simp only: of_int_le_iff)
  then have M: "\<bar>M\<bar> \<le> 2 ^ 53" by simp
  have s: "binary64 c = c"
    unfolding ab by (rule binary64_exact[OF representable_dyadic[OF M]]) simp
  have h: "c / 2 = of_int M / 2 ^ 21" unfolding ab by simp
  have "binary64 (c / 2) = c / 2"
    unfolding h by (rule binary64_exact[OF representable_dyadic[OF M]]) simp
  then show ?thesis unfolding midpoint_def c_def[symmetric] s .
qed

lemma test_bounds:
  "geohash_bounds ''sr2yk'' =
     Inr \<lparr>sw = \<lparr>lat = 418798828125 / 10000000000, lon = 1248046875 / 100000000\<rparr>,
          ne = \<lparr>lat = 41923828125 / 1000000000, lon = 125244140625 / 10000000000\<rparr>\<rparr>"
proof -
  have l: "lower ''sr2yk'' = ''sr2yk''" by code_simp
  have d: "decodemap (CHR ''s'') = Some 24" "decodemap (CHR ''r'') = Some 23"
    "decodemap (CHR ''2'') = Some 2" "decodemap (CHR ''y'') = Some 30"
    "decodemap (CHR ''k'') = Some 18"
    using decodemap_nth[of 24] decodemap_nth[of 23] decodemap_nth[of 2] decodemap_nth[of 30]
      decodemap_nth[of 18]
    by (simp_all add: base32_def)
  show ?thesis
    by (simp add: geohash_bounds_def l bounds_char_def d bounds_bit_def init_bstate_def
        Let_def drop_bit_eq_div midpoint_exact)
qed


lemma test_encode:
  "geohash_encode \<lparr>lat = Some (41890251 / 1000000), lon = Some (12492373 / 1000000)\<rparr> (Some 5) =
     Some (Inr ''sr2yk'') \<and>
   geohash_encode \<lparr>lat = Some (41890251 / 1000000), lon = Some (12492373 / 1000000)\<rparr> (Some 6) =
     Some (Inr ''sr2yk3'')"
  by (simp add: geohash_encode_def encode_loop.simps encode_body_def init_estate_def
      str_get_def base32_def Let_def midpoint_exact)

lemma test_neighbours:
  "geohash_neighbours ''sr2yk3bsm'' =
     Inr [(''nw'', ''sr2yk3bss''), (''n'', ''sr2yk3bst''), (''ne'', ''sr2yk3bsw''),
          (''w'', ''sr2yk3bsk''), (''e'', ''sr2yk3bsq''),
          (''sw'', ''sr2yk3bsh''), (''s'', ''sr2yk3bsj''), (''se'', ''sr2yk3bsn'')]"
  by code_simp

end
